theory Spec2Isabelle
  imports Complex_Main
begin

section \<open>Characters and strings of the two line parsers\<close>

text \<open>
  A line of text is a \<^typ>\<open>string\<close>. The lines considered are ASCII text: the digit test
  \<open>isdigit\<close> is Python's \<open>str.isdigit\<close> on ASCII characters, and \<open>isspace\<close> is the set of
  ASCII characters that \<open>str.rstrip()\<close> removes. Python's \<open>float\<close> amounts are idealised
  as exact \<^typ>\<open>real\<close> numbers: rounding of binary floating point is not part of the model.
\<close>

definition isdigit :: "char \<Rightarrow> bool" where
  "isdigit c = (c \<in> set ''0123456789'')"

definition is_digit19 :: "char \<Rightarrow> bool" where
  "is_digit19 c = (c \<in> set ''123456789'')"

definition int_of_char :: "char \<Rightarrow> nat" where
  "int_of_char c = of_char c - 48"

definition isspace :: "char \<Rightarrow> bool" where
  "isspace c = (c \<in> set [CHR '' '', CHR 0x09, CHR ''\<newline>'', CHR 0x0B, CHR 0x0C, CHR 0x0D,
                          CHR 0x1C, CHR 0x1D, CHR 0x1E, CHR 0x1F])"

definition rstrip :: "string \<Rightarrow> string" where
  "rstrip s = rev (dropWhile isspace (rev s))"

text \<open>The slice \<open>s[i:j]\<close> for indices \<open>0 \<le> i\<close>, \<open>0 \<le> j\<close>.\<close>

definition slice :: "string \<Rightarrow> nat \<Rightarrow> nat \<Rightarrow> string" where
  "slice s i j = take (j - i) (drop i s)"

section \<open>The category file line parser\<close>

datatype CS = CS_START | LEVEL1 | LEVEL234A | LEVEL234B | CS_START_DESCR | CS_END_DESCR
  | END_COMMENT

datatype cat_error = Invalid_Cat_Format | Too_Many_Digits | Nested_Too_Deeply
  | Missing_Description

text \<open>
  The five-tuple returned by \<open>parse_cat_file_line\<close>: an error message, or all \<open>None\<close> for a
  blank or comment line, or the fields \<open>cat_code\<close>, \<open>descr\<close>, \<open>comment\<close>, \<open>level\<close>.
\<close>

datatype cat_line = Cat_Error cat_error | Cat_Blank | Cat_Entry string string string nat

text \<open>The local variables of the parser's loop.\<close>

record cat_vars =
  parse_state :: CS
  start_idx :: nat
  level :: nat
  digit_count :: nat
  cat_code :: string
  descr_start :: nat
  descr :: string
  comment_start :: nat

definition cat_vars0 :: cat_vars where
  "cat_vars0 = \<lparr>parse_state = CS_START, start_idx = 0, level = 0, digit_count = 0,
     cat_code = [], descr_start = 0, descr = [], comment_start = 0\<rparr>"

text \<open>
  One iteration of the loop \<open>for idx, char in enumerate(cat_file_line)\<close>: \<open>Inl\<close> is a
  \<open>return\<close> from inside the loop, \<open>Inr\<close> is \<open>continue\<close> with the updated variables.
\<close>

definition cat_char :: "string \<Rightarrow> cat_vars \<Rightarrow> nat \<Rightarrow> char \<Rightarrow> cat_line + cat_vars" where
  "cat_char line v idx c =
    (case parse_state v of
      CS_START \<Rightarrow>
        if c = CHR '' '' then Inr v
        else if c = CHR ''#'' \<or> c = CHR ''\<newline>'' then Inl Cat_Blank
        else if is_digit19 c then Inr (v\<lparr>start_idx := idx, level := 1, parse_state := LEVEL1\<rparr>)
        else Inl (Cat_Error Invalid_Cat_Format)
    | LEVEL1 \<Rightarrow>
        if c = CHR ''.'' then Inr (v\<lparr>level := 2, parse_state := LEVEL234A\<rparr>)
        else if c = CHR '' '' then
          Inr (v\<lparr>cat_code := slice line (start_idx v) idx, parse_state := CS_START_DESCR\<rparr>)
        else Inl (Cat_Error Invalid_Cat_Format)
    | LEVEL234A \<Rightarrow>
        if is_digit19 c then Inr (v\<lparr>parse_state := LEVEL234B, digit_count := 1\<rparr>)
        else Inl (Cat_Error Invalid_Cat_Format)
    | LEVEL234B \<Rightarrow>
        if isdigit c then
          (if digit_count v + 1 \<le> 2 then Inr (v\<lparr>digit_count := digit_count v + 1\<rparr>)
           else Inl (Cat_Error Too_Many_Digits))
        else if c = CHR ''.'' then
          (if level v + 1 \<le> 4 then Inr (v\<lparr>level := level v + 1, parse_state := LEVEL234A\<rparr>)
           else Inl (Cat_Error Nested_Too_Deeply))
        else if c = CHR '' '' then
          Inr (v\<lparr>cat_code := slice line (start_idx v) idx, parse_state := CS_START_DESCR\<rparr>)
        else Inl (Cat_Error Invalid_Cat_Format)
    | CS_START_DESCR \<Rightarrow>
        if c = CHR '' '' then Inr v
        else if c = CHR ''#'' \<or> c = CHR ''\<newline>'' then Inl (Cat_Error Missing_Description)
        else Inr (v\<lparr>descr_start := idx, parse_state := CS_END_DESCR\<rparr>)
    | CS_END_DESCR \<Rightarrow>
        if c = CHR ''#'' \<or> c = CHR ''\<newline>'' then
          (let d = rstrip (slice line (descr_start v) idx) in
           if c = CHR ''\<newline>'' then Inl (Cat_Entry (cat_code v) d [] (level v))
           else Inr (v\<lparr>descr := d, comment_start := idx, parse_state := END_COMMENT\<rparr>))
        else Inr v
    | END_COMMENT \<Rightarrow>
        if c = CHR ''\<newline>'' then
          Inl (Cat_Entry (cat_code v) (descr v) (rstrip (slice line (comment_start v) idx))
                 (level v))
        else Inr v)"

text \<open>
  The loop over the characters \<open>cs\<close> that remain, \<open>idx\<close> the index of the first of them.
  \<open>Inr\<close> is the loop running off the end of the line without a \<open>return\<close>.
\<close>

fun cat_scan :: "string \<Rightarrow> cat_vars \<Rightarrow> nat \<Rightarrow> string \<Rightarrow> cat_line + cat_vars" where
  "cat_scan line v idx [] = Inr v"
| "cat_scan line v idx (c # cs) =
    (case cat_char line v idx c of
      Inl r \<Rightarrow> Inl r
    | Inr v' \<Rightarrow> cat_scan line v' (Suc idx) cs)"

definition parse_cat_file_line :: "string \<Rightarrow> cat_line" where
  "parse_cat_file_line line =
    (case cat_scan line cat_vars0 0 line of
      Inl r \<Rightarrow> r
    | Inr v \<Rightarrow> if parse_state v = CS_START then Cat_Blank else Cat_Error Invalid_Cat_Format)"

section \<open>The journal file line parser\<close>

datatype TJ = TJ_START | MONTH | DATE | TJ_START_DESCR | TJ_END_DESCR | START_AMT | DOLLARS
  | CENTS | START_TYPE | END_TYPE | START_CAT | END_CAT

datatype journal_error = Invalid_Journal_Format | Invalid_Month | Invalid_Date
  | Invalid_Leap_Year_Date | Invalid_Description | Invalid_Amount | Invalid_Type
  | Invalid_Category_Code | Index_Error

text \<open>
  The six-tuple returned by \<open>parse_journal_file_line\<close>: an error message, or all \<open>None\<close>
  for a blank or comment line, or the fields \<open>jdate\<close>, \<open>jdescr\<close>, \<open>jamt\<close>, \<open>jtype\<close>,
  \<open>jcat_code\<close>.
\<close>

datatype journal_line = Journal_Error journal_error | Journal_Blank
  | Journal_Entry string string real string string

text \<open>The table \<open>MAX_DATE\<close>, the leap year test of \<open>calendar.isleap\<close>, and \<open>str.format\<close>
  with the format \<open>0wd\<close> on a number that is not negative.\<close>

definition MAX_DATE :: "nat list" where
  "MAX_DATE = [0, 31, 29, 31, 30, 31, 30, 31, 31, 30, 31, 30, 31]"

definition isleap :: "nat \<Rightarrow> bool" where
  "isleap year = (year mod 4 = 0 \<and> (year mod 100 \<noteq> 0 \<or> year mod 400 = 0))"

definition digit_char :: "nat \<Rightarrow> char" where
  "digit_char d = ''0123456789'' ! d"

fun str_nat :: "nat \<Rightarrow> string" where
  "str_nat n = (if n < 10 then [digit_char n] else str_nat (n div 10) @ [digit_char (n mod 10)])"

declare str_nat.simps [simp del]

definition format_0d :: "nat \<Rightarrow> nat \<Rightarrow> string" where
  "format_0d w n = replicate (w - length (str_nat n)) (CHR ''0'') @ str_nat n"

definition format_date :: "nat \<Rightarrow> nat \<Rightarrow> nat \<Rightarrow> string" where
  "format_date m d y = format_0d 2 m @ ''/'' @ format_0d 2 d @ ''/'' @ format_0d 4 y"

text \<open>The local variables of the parser's loop.\<close>

record journal_vars =
  jparse_state :: TJ
  month_value :: nat
  digit_ctr :: nat
  date_value :: nat
  jdate :: string
  jdescr_start :: nat
  jdescr :: string
  sign_flag :: bool
  dollars :: real
  cents :: real
  jamt :: real
  type_start :: nat
  jtype :: string
  cat_start :: nat

definition journal_vars0 :: journal_vars where
  "journal_vars0 = \<lparr>jparse_state = TJ_START, month_value = 0, digit_ctr = 0, date_value = 0,
     jdate = [], jdescr_start = 0, jdescr = [], sign_flag = False, dollars = 0, cents = 0,
     jamt = 0, type_start = 0, jtype = [], cat_start = 0\<rparr>"

text \<open>
  One iteration of the loop \<open>for idx, char in enumerate(journal_file_line)\<close>: \<open>Inl\<close> is a
  \<open>return\<close> from inside the loop, \<open>Inr\<close> is \<open>continue\<close> with the updated variables.
\<close>

definition journal_char ::
  "string \<Rightarrow> nat \<Rightarrow> journal_vars \<Rightarrow> nat \<Rightarrow> char \<Rightarrow> journal_line + journal_vars" where
  "journal_char line journal_year v idx c =
    (case jparse_state v of
      TJ_START \<Rightarrow>
        if c = CHR '' '' then Inr v
        else if c = CHR ''#'' \<or> c = CHR ''\<newline>'' then Inl Journal_Blank
        else if isdigit c then
          Inr (v\<lparr>month_value := int_of_char c, digit_ctr := 1, jparse_state := MONTH\<rparr>)
        else Inl (Journal_Error Invalid_Journal_Format)
    | MONTH \<Rightarrow>
        if isdigit c then
          (if digit_ctr v + 1 \<le> 2 then
             Inr (v\<lparr>month_value := month_value v * 10 + int_of_char c,
                    digit_ctr := digit_ctr v + 1\<rparr>)
           else Inl (Journal_Error Invalid_Month))
        else if c = CHR ''/'' \<and> 1 \<le> month_value v \<and> month_value v \<le> 12 then
          Inr (v\<lparr>digit_ctr := 0, date_value := 0, jparse_state := DATE\<rparr>)
        else Inl (Journal_Error Invalid_Month)
    | DATE \<Rightarrow>
        if isdigit c then
          (if digit_ctr v + 1 \<le> 2 then
             Inr (v\<lparr>date_value := date_value v * 10 + int_of_char c,
                    digit_ctr := digit_ctr v + 1\<rparr>)
           else Inl (Journal_Error Invalid_Date))
        else if c = CHR '','' then
          (if 1 \<le> date_value v then
             (if length MAX_DATE \<le> month_value v then Inl (Journal_Error Index_Error)
              else if date_value v \<le> MAX_DATE ! month_value v then
                (if month_value v = 2 \<and> date_value v = 29 \<and> \<not> isleap journal_year then
                   Inl (Journal_Error Invalid_Leap_Year_Date)
                 else
                   Inr (v\<lparr>jdate := format_date (month_value v) (date_value v) journal_year,
                          jparse_state := TJ_START_DESCR\<rparr>))
              else Inl (Journal_Error Invalid_Date))
           else Inl (Journal_Error Invalid_Date))
        else Inl (Journal_Error Invalid_Date)
    | TJ_START_DESCR \<Rightarrow>
        if c = CHR '' '' then Inr v
        else if c \<noteq> CHR '','' \<and> c \<noteq> CHR ''\<newline>'' then
          Inr (v\<lparr>jdescr_start := idx, jparse_state := TJ_END_DESCR\<rparr>)
        else Inl (Journal_Error Invalid_Description)
    | TJ_END_DESCR \<Rightarrow>
        if c = CHR '','' then
          Inr (v\<lparr>jdescr := rstrip (slice line (jdescr_start v) idx), sign_flag := False,
                 jparse_state := START_AMT\<rparr>)
        else Inr v
    | START_AMT \<Rightarrow>
        if c = CHR '' '' then Inr v
        else if c = CHR ''-'' then
          Inr (v\<lparr>sign_flag := True, digit_ctr := 0, dollars := 0, jparse_state := DOLLARS\<rparr>)
        else if isdigit c then
          Inr (v\<lparr>digit_ctr := 1, dollars := real (int_of_char c), jparse_state := DOLLARS\<rparr>)
        else Inl (Journal_Error Invalid_Amount)
    | DOLLARS \<Rightarrow>
        if isdigit c then
          Inr (v\<lparr>digit_ctr := digit_ctr v + 1,
                 dollars := dollars v * 10 + real (int_of_char c)\<rparr>)
        else if c = CHR ''.'' \<and> digit_ctr v \<noteq> 0 then
          Inr (v\<lparr>digit_ctr := 0, cents := 0, jparse_state := CENTS\<rparr>)
        else Inl (Journal_Error Invalid_Amount)
    | CENTS \<Rightarrow>
        if isdigit c then
          Inr (v\<lparr>digit_ctr := digit_ctr v + 1, cents := cents v * 10 + real (int_of_char c)\<rparr>)
        else if c = CHR '','' \<and> digit_ctr v = 2 then
          Inr (v\<lparr>jamt := (if sign_flag v then - (dollars v + cents v / 100)
                           else dollars v + cents v / 100),
                 jparse_state := START_TYPE\<rparr>)
        else Inl (Journal_Error Invalid_Amount)
    | START_TYPE \<Rightarrow>
        if c = CHR '' '' then Inr v
        else if c \<noteq> CHR '','' \<and> c \<noteq> CHR ''\<newline>'' then
          Inr (v\<lparr>type_start := idx, jparse_state := END_TYPE\<rparr>)
        else Inl (Journal_Error Invalid_Type)
    | END_TYPE \<Rightarrow>
        if c = CHR '','' then
          Inr (v\<lparr>jtype := rstrip (slice line (type_start v) idx), jparse_state := START_CAT\<rparr>)
        else Inr v
    | START_CAT \<Rightarrow>
        if c = CHR '' '' then Inr v
        else if isdigit c then Inr (v\<lparr>cat_start := idx, jparse_state := END_CAT\<rparr>)
        else Inl (Journal_Error Invalid_Category_Code)
    | END_CAT \<Rightarrow>
        if isdigit c \<or> c = CHR ''.'' then Inr v
        else if c = CHR '' '' \<or> c = CHR ''\<newline>'' then
          Inl (Journal_Entry (jdate v) (jdescr v) (jamt v) (jtype v)
                 (slice line (cat_start v) idx))
        else Inl (Journal_Error Invalid_Category_Code))"

fun journal_scan ::
  "string \<Rightarrow> nat \<Rightarrow> journal_vars \<Rightarrow> nat \<Rightarrow> string \<Rightarrow> journal_line + journal_vars" where
  "journal_scan line journal_year v idx [] = Inr v"
| "journal_scan line journal_year v idx (c # cs) =
    (case journal_char line journal_year v idx c of
      Inl r \<Rightarrow> Inl r
    | Inr v' \<Rightarrow> journal_scan line journal_year v' (Suc idx) cs)"

definition parse_journal_file_line :: "string \<Rightarrow> nat \<Rightarrow> journal_line" where
  "parse_journal_file_line line journal_year =
    (case journal_scan line journal_year journal_vars0 0 line of
      Inl r \<Rightarrow> r
    | Inr v \<Rightarrow>
        if jparse_state v = TJ_START then Journal_Blank
        else Journal_Error Invalid_Journal_Format)"

section \<open>Level 1 of a category code\<close>

text \<open>
  C4. In the state \<open>LEVEL1\<close>, reached right after the first digit 1 to 9 of a code, a
  period goes on to a level 2 segment, a space closes the code and starts the search for
  the description, and every other character, a second digit included, is a format
  error. The line \<open>12 Foo\<close> is rejected.
\<close>

theorem level1_continues_only_on_dot_or_space:
  "parse_state v = LEVEL1 \<longrightarrow>
     cat_char line v idx (CHR ''.'') = Inr (v\<lparr>level := 2, parse_state := LEVEL234A\<rparr>) \<and>
     cat_char line v idx (CHR '' '') =
       Inr (v\<lparr>cat_code := slice line (start_idx v) idx, parse_state := CS_START_DESCR\<rparr>) \<and>
     (c \<noteq> CHR ''.'' \<and> c \<noteq> CHR '' '' \<longrightarrow>
        cat_char line v idx c = Inl (Cat_Error Invalid_Cat_Format)) \<and>
     (\<exists>v1. cat_scan ''12 Foo\<newline>'' cat_vars0 0 ''1'' = Inr v1 \<and> parse_state v1 = LEVEL1) \<and>
     parse_cat_file_line ''12 Foo\<newline>'' = Cat_Error Invalid_Cat_Format"
  by (simp add: cat_char_def parse_cat_file_line_def cat_vars0_def is_digit19_def)

theorem level1_continues_only_on_dot_or_space_witness:
  "parse_state (cat_vars0\<lparr>parse_state := LEVEL1\<rparr>) = LEVEL1 \<and>
   cat_char ''12 Foo\<newline>'' (cat_vars0\<lparr>parse_state := LEVEL1\<rparr>) 1 (CHR ''2'') =
     Inl (Cat_Error Invalid_Cat_Format) \<and>
   cat_char ''1.2 Foo\<newline>'' (cat_vars0\<lparr>parse_state := LEVEL1\<rparr>) 1 (CHR ''.'') =
     Inr (cat_vars0\<lparr>parse_state := LEVEL1, level := 2, parse_state := LEVEL234A\<rparr>)"
  using level1_continues_only_on_dot_or_space
    [of "cat_vars0\<lparr>parse_state := LEVEL1\<rparr>" "''12 Foo\<newline>''" 1 "CHR ''2''"]
    level1_continues_only_on_dot_or_space
    [of "cat_vars0\<lparr>parse_state := LEVEL1\<rparr>" "''1.2 Foo\<newline>''" 1 "CHR ''2''"]
  by simp

section \<open>Running the parsers on concrete lines\<close>

lemmas parser_eval = parse_cat_file_line_def cat_char_def cat_vars0_def is_digit19_def isdigit_def
  slice_def rstrip_def isspace_def parse_journal_file_line_def journal_vars0_def journal_char_def
  int_of_char_def MAX_DATE_def isleap_def format_date_def format_0d_def str_nat.simps digit_char_def


section \<open>Lines that end before they are complete\<close>

text \<open>
  The line passed to the parser is only read through slices that end at the current
  index, so the characters after that index do not matter; and a scan of a line in two
  parts is the scan of the first part followed by the scan of the second.
\<close>

lemma slice_append_left: "j \<le> length s \<Longrightarrow> slice (s @ t) i j = slice s i j"
  by (simp add: slice_def)

lemma cat_char_append_line:
  "idx \<le> length line \<Longrightarrow> cat_char (line @ ext) v idx c = cat_char line v idx c"
  by (cases "parse_state v") (simp_all add: cat_char_def slice_append_left)

lemma cat_scan_append_line:
  "idx + length cs \<le> Suc (length line) \<Longrightarrow> cat_scan (line @ ext) v idx cs = cat_scan line v idx cs"
  by (induction cs arbitrary: v idx) (simp_all add: cat_char_append_line split: sum.splits)

lemma cat_scan_append:
  "cat_scan line v idx (xs @ ys) =
    (case cat_scan line v idx xs of Inl r \<Rightarrow> Inl r
     | Inr v' \<Rightarrow> cat_scan line v' (idx + length xs) ys)"
  by (induction xs arbitrary: v idx) (simp_all split: sum.splits)

lemma cat_char_leaves_start:
  "cat_char line v idx c = Inr v' \<Longrightarrow>
     (parse_state v' = CS_START) = (parse_state v = CS_START \<and> c = CHR '' '')"
  by (auto simp: cat_char_def Let_def split: CS.splits if_splits)

lemma cat_scan_start_iff:
  "cat_scan line v idx cs = Inr v' \<Longrightarrow>
     (parse_state v' = CS_START) = (parse_state v = CS_START \<and> list_all (\<lambda>c. c = CHR '' '') cs)"
proof (induction cs arbitrary: v idx)
  case Nil
  then show ?case by simp
next
  case (Cons c cs)
  then obtain u where u: "cat_char line v idx c = Inr u" and r: "cat_scan line u (Suc idx) cs = Inr v'"
    by (auto split: sum.splits)
  from Cons.IH [OF r] cat_char_leaves_start [OF u] show ?case by auto
qed

lemma cat_scan_spaces:
  "parse_state v = CS_START \<Longrightarrow> cat_scan line v idx (replicate n (CHR '' '')) = Inr v"
  by (induction n arbitrary: idx) (simp_all add: cat_char_def)

lemma cat_char_entry_newline:
  "cat_char line v idx c = Inl (Cat_Entry a b d l) \<Longrightarrow> c = CHR ''\<newline>'' \<and> parse_state v \<noteq> CS_START"
  by (auto simp: cat_char_def Let_def split: CS.splits if_splits)

lemma cat_scan_entry_newline:
  "cat_scan line v idx cs = Inl (Cat_Entry a b d l) \<Longrightarrow> CHR ''\<newline>'' \<in> set cs"
  by (induction cs arbitrary: v idx) (auto split: sum.splits dest: cat_char_entry_newline)

lemma cat_missing_newline:
  assumes nl: "CHR ''\<newline>'' \<notin> set line"
    and e: "parse_cat_file_line (line @ ''\<newline>'') = Cat_Entry a b d l"
  shows "parse_cat_file_line line = Cat_Error Invalid_Cat_Format"
proof -
  let ?L = "line @ ''\<newline>''"
  have same: "cat_scan ?L cat_vars0 0 line = cat_scan line cat_vars0 0 line"
    by (rule cat_scan_append_line) simp
  show ?thesis
  proof (cases "cat_scan line cat_vars0 0 line")
    case (Inl r)
    with same e have "r = Cat_Entry a b d l"
      by (simp add: parse_cat_file_line_def cat_scan_append)
    with Inl nl cat_scan_entry_newline show ?thesis by blast
  next
    case (Inr u)
    with same e have "cat_char ?L u (length line) (CHR ''\<newline>'') = Inl (Cat_Entry a b d l)"
      by (simp add: parse_cat_file_line_def cat_scan_append split: sum.splits if_splits)
    then have "parse_state u \<noteq> CS_START"
      by (auto dest: cat_char_entry_newline)
    with Inr show ?thesis by (simp add: parse_cat_file_line_def)
  qed
qed

lemma journal_char_append_line:
  "idx \<le> length line \<Longrightarrow> journal_char (line @ ext) y v idx c = journal_char line y v idx c"
  by (cases "jparse_state v") (simp_all add: journal_char_def slice_append_left)

lemma journal_scan_append_line:
  "idx + length cs \<le> Suc (length line) \<Longrightarrow>
     journal_scan (line @ ext) y v idx cs = journal_scan line y v idx cs"
  by (induction cs arbitrary: v idx) (simp_all add: journal_char_append_line split: sum.splits)

lemma journal_scan_append:
  "journal_scan line y v idx (xs @ ys) =
    (case journal_scan line y v idx xs of Inl r \<Rightarrow> Inl r
     | Inr v' \<Rightarrow> journal_scan line y v' (idx + length xs) ys)"
  by (induction xs arbitrary: v idx) (simp_all split: sum.splits)

lemma journal_char_leaves_start:
  "journal_char line y v idx c = Inr v' \<Longrightarrow>
     (jparse_state v' = TJ_START) = (jparse_state v = TJ_START \<and> c = CHR '' '')"
  by (auto simp: journal_char_def split: TJ.splits if_splits)

lemma journal_scan_start_iff:
  "journal_scan line y v idx cs = Inr v' \<Longrightarrow>
     (jparse_state v' = TJ_START) =
       (jparse_state v = TJ_START \<and> list_all (\<lambda>c. c = CHR '' '') cs)"
proof (induction cs arbitrary: v idx)
  case Nil
  then show ?case by simp
next
  case (Cons c cs)
  then obtain u where u: "journal_char line y v idx c = Inr u"
    and r: "journal_scan line y u (Suc idx) cs = Inr v'"
    by (auto split: sum.splits)
  from Cons.IH [OF r] journal_char_leaves_start [OF u] show ?case by auto
qed

lemma journal_scan_spaces:
  "jparse_state v = TJ_START \<Longrightarrow> journal_scan line y v idx (replicate n (CHR '' '')) = Inr v"
  by (induction n arbitrary: idx) (simp_all add: journal_char_def)

lemma journal_char_entry_state:
  "journal_char line y v idx c = Inl (Journal_Entry a b d t l) \<Longrightarrow> jparse_state v = END_CAT"
  by (auto simp: journal_char_def split: TJ.splits if_splits)

lemma journal_missing_newline:
  assumes e: "parse_journal_file_line (line @ ''\<newline>'') y = Journal_Entry a b d t l"
    and n: "parse_journal_file_line line y \<noteq> Journal_Entry a b d t l"
  shows "parse_journal_file_line line y = Journal_Error Invalid_Journal_Format"
proof -
  let ?L = "line @ ''\<newline>''"
  have same: "journal_scan ?L y journal_vars0 0 line = journal_scan line y journal_vars0 0 line"
    by (rule journal_scan_append_line) simp
  show ?thesis
  proof (cases "journal_scan line y journal_vars0 0 line")
    case (Inl r)
    with same e have "r = Journal_Entry a b d t l"
      by (simp add: parse_journal_file_line_def journal_scan_append)
    with Inl n show ?thesis by (simp add: parse_journal_file_line_def)
  next
    case (Inr u)
    with same e have "journal_char ?L y u (length line) (CHR ''\<newline>'') = Inl (Journal_Entry a b d t l)"
      by (simp add: parse_journal_file_line_def journal_scan_append split: sum.splits if_splits)
    then have "jparse_state u = END_CAT"
      by (rule journal_char_entry_state)
    with Inr show ?thesis by (simp add: parse_journal_file_line_def)
  qed
qed


text \<open>
  C7. In both parsers a line of spaces only, with no newline, is a blank line and no
  error. When the loop runs off the end of any other line without having returned, the
  result is the format error; this is so for a category line that is accepted with its
  newline and has lost it, and for a journal line whose entry is completed by its
  newline and has lost it.
\<close>

theorem premature_end_of_line:
  "parse_cat_file_line (replicate n (CHR '' '')) = Cat_Blank \<and>
   parse_journal_file_line (replicate n (CHR '' '')) year = Journal_Blank \<and>
   (cat_scan line cat_vars0 0 line = Inr v \<and> \<not> list_all (\<lambda>c. c = CHR '' '') line \<longrightarrow>
      parse_cat_file_line line = Cat_Error Invalid_Cat_Format) \<and>
   (journal_scan line year journal_vars0 0 line = Inr w \<and>
    \<not> list_all (\<lambda>c. c = CHR '' '') line \<longrightarrow>
      parse_journal_file_line line year = Journal_Error Invalid_Journal_Format) \<and>
   (CHR ''\<newline>'' \<notin> set line \<and> parse_cat_file_line (line @ ''\<newline>'') = Cat_Entry code d cm lvl \<longrightarrow>
      parse_cat_file_line line = Cat_Error Invalid_Cat_Format) \<and>
   (parse_journal_file_line (line @ ''\<newline>'') year = Journal_Entry jd js ja jt jc \<and>
    parse_journal_file_line line year \<noteq> Journal_Entry jd js ja jt jc \<longrightarrow>
      parse_journal_file_line line year = Journal_Error Invalid_Journal_Format)"
proof -
  have 1: "parse_cat_file_line (replicate n (CHR '' '')) = Cat_Blank"
    by (simp add: parse_cat_file_line_def cat_scan_spaces cat_vars0_def)
  have 2: "parse_journal_file_line (replicate n (CHR '' '')) year = Journal_Blank"
    by (simp add: parse_journal_file_line_def journal_scan_spaces journal_vars0_def)
  have 3: "parse_cat_file_line line = Cat_Error Invalid_Cat_Format"
    if "cat_scan line cat_vars0 0 line = Inr v" "\<not> list_all (\<lambda>c. c = CHR '' '') line"
    using that cat_scan_start_iff [OF that(1)] by (simp add: parse_cat_file_line_def)
  have 4: "parse_journal_file_line line year = Journal_Error Invalid_Journal_Format"
    if "journal_scan line year journal_vars0 0 line = Inr w"
      "\<not> list_all (\<lambda>c. c = CHR '' '') line"
    using that journal_scan_start_iff [OF that(1)] by (simp add: parse_journal_file_line_def)
  from 1 2 3 4 cat_missing_newline journal_missing_newline show ?thesis by blast
qed


theorem premature_end_of_line_witness:
  "parse_cat_file_line ''   '' = Cat_Blank \<and>
   parse_journal_file_line ''   '' 2015 = Journal_Blank \<and>
   parse_cat_file_line ''2.1 Housing\<newline>'' = Cat_Entry ''2.1'' ''Housing'' [] 2 \<and>
   parse_cat_file_line ''2.1 Housing'' = Cat_Error Invalid_Cat_Format \<and>
   parse_journal_file_line ''3/10, Rent, 800.00, chk, 2.1\<newline>'' 2015 =
     Journal_Entry ''03/10/2015'' ''Rent'' 800 ''chk'' ''2.1'' \<and>
   parse_journal_file_line ''3/10, Rent, 800.00, chk, 2.1'' 2015 =
     Journal_Error Invalid_Journal_Format \<and>
   (\<exists>v. cat_scan ''2.1 Housing'' cat_vars0 0 ''2.1 Housing'' = Inr v) \<and>
   (\<exists>w. journal_scan ''3/10, Rent'' 2015 journal_vars0 0 ''3/10, Rent'' = Inr w) \<and>
   parse_journal_file_line ''3/10, Rent'' 2015 = Journal_Error Invalid_Journal_Format"
proof -
  note t = premature_end_of_line [where n = 3 and year = 2015]
  have b: "parse_cat_file_line ''   '' = Cat_Blank \<and> parse_journal_file_line ''   '' 2015 = Journal_Blank"
    using t by (simp add: numeral_3_eq_3)
  have c1: "parse_cat_file_line (''2.1 Housing'' @ ''\<newline>'') = Cat_Entry ''2.1'' ''Housing'' [] 2"
    by (simp add: parser_eval)
  have c2: "CHR ''\<newline>'' \<notin> set ''2.1 Housing''" by simp
  have c3: "parse_cat_file_line ''2.1 Housing'' = Cat_Error Invalid_Cat_Format"
    using t [where line = "''2.1 Housing''"] c1 c2 by blast
  have j1: "parse_journal_file_line (''3/10, Rent, 800.00, chk, 2.1'' @ ''\<newline>'') 2015 =
     Journal_Entry ''03/10/2015'' ''Rent'' 800 ''chk'' ''2.1''"
    by (simp add: parser_eval)
  obtain w where j2: "journal_scan ''3/10, Rent, 800.00, chk, 2.1'' 2015 journal_vars0 0
      ''3/10, Rent, 800.00, chk, 2.1'' = Inr w"
    by (simp add: parser_eval)
  have j3: "\<not> list_all (\<lambda>c. c = CHR '' '') ''3/10, Rent, 800.00, chk, 2.1''"
    by simp
  have j4: "parse_journal_file_line ''3/10, Rent, 800.00, chk, 2.1'' 2015 =
     Journal_Error Invalid_Journal_Format"
    using t [where line = "''3/10, Rent, 800.00, chk, 2.1''" and w = w] j2 j3 by blast
  obtain v where k1: "cat_scan ''2.1 Housing'' cat_vars0 0 ''2.1 Housing'' = Inr v"
    by (simp add: parser_eval)
  obtain w' where k2: "journal_scan ''3/10, Rent'' 2015 journal_vars0 0 ''3/10, Rent'' = Inr w'"
    by (simp add: parser_eval)
  have k3: "\<not> list_all (\<lambda>c. c = CHR '' '') ''3/10, Rent''"
    by simp
  have k4: "parse_journal_file_line ''3/10, Rent'' 2015 = Journal_Error Invalid_Journal_Format"
    using t [where line = "''3/10, Rent''" and w = w'] k2 k3 by blast
  from b c1 c3 j1 j4 k1 k2 k4 show ?thesis by auto
qed

section \<open>The shape of an accepted category code\<close>

text \<open>\<open>str.split(sep)\<close> for a separator of one character.\<close>

fun split_on :: "char \<Rightarrow> string \<Rightarrow> string list" where
  "split_on sep [] = [[]]"
| "split_on sep (c # cs) =
    (if c = sep then [] # split_on sep cs
     else (c # hd (split_on sep cs)) # tl (split_on sep cs))"

definition segments :: "string \<Rightarrow> string list" where
  "segments code = split_on (CHR ''.'') code"

definition first_segment_ok :: "string \<Rightarrow> bool" where
  "first_segment_ok s = (length s = 1 \<and> is_digit19 (hd s))"

definition deeper_segment_ok :: "string \<Rightarrow> bool" where
  "deeper_segment_ok s =
     ((length s = 1 \<or> length s = 2) \<and> is_digit19 (hd s) \<and> list_all isdigit s)"

definition valid_cat_code :: "string \<Rightarrow> bool" where
  "valid_cat_code code =
     (1 \<le> length (segments code) \<and> length (segments code) \<le> 4 \<and>
      first_segment_ok (hd (segments code)) \<and> list_all deeper_segment_ok (tl (segments code)))"

text \<open>The first word of a line: what stands between the leading spaces and the next space.\<close>

definition first_token :: "string \<Rightarrow> string" where
  "first_token line =
     takeWhile (\<lambda>c. c \<noteq> CHR '' '') (dropWhile (\<lambda>c. c = CHR '' '') line)"

text \<open>A code built from its first digit and its deeper segments.\<close>

definition join_code :: "char \<Rightarrow> string list \<Rightarrow> string" where
  "join_code d segs = d # concat (map ((#) (CHR ''.'')) segs)"

lemma split_on_not_Nil [simp]: "split_on sep s \<noteq> []"
  by (induction s) auto

lemma split_on_no_sep: "sep \<notin> set s \<Longrightarrow> split_on sep s = [s]"
  by (induction s) auto

lemma split_on_append_sep:
  "split_on sep (s @ sep # t) = split_on sep s @ split_on sep t"
  by (induction s) (auto simp: hd_append)

lemma split_on_joined:
  "sep \<notin> set p \<Longrightarrow> \<forall>s \<in> set segs. sep \<notin> set s \<Longrightarrow>
     split_on sep (p @ concat (map ((#) sep) segs)) = p # segs"
proof (induction segs arbitrary: p)
  case Nil
  then show ?case by (simp add: split_on_no_sep)
next
  case (Cons s segs)
  then have "split_on sep (s @ concat (map ((#) sep) segs)) = s # segs"
    by simp
  with Cons.prems show ?case
    by (simp add: split_on_append_sep split_on_no_sep)
qed

lemma joined_split_on:
  "hd (split_on sep s) @ concat (map ((#) sep) (tl (split_on sep s))) = s"
proof (induction s)
  case Nil
  show ?case by simp
next
  case (Cons c s)
  obtain w ws where w: "split_on sep s = w # ws"
    by (cases "split_on sep s") auto
  with Cons show ?case by auto
qed

lemma digit19_isdigit: "is_digit19 c \<Longrightarrow> isdigit c"
  by (auto simp: is_digit19_def isdigit_def)

lemma isdigit_not_special:
  "isdigit c \<Longrightarrow> c \<noteq> CHR ''.'' \<and> c \<noteq> CHR '' '' \<and> c \<noteq> CHR ''#'' \<and> c \<noteq> CHR ''\<newline>''"
  by (auto simp: isdigit_def)

lemma deeper_segment_chars:
  "deeper_segment_ok s \<Longrightarrow> CHR ''.'' \<notin> set s \<and> CHR '' '' \<notin> set s"
  by (auto simp: deeper_segment_ok_def list_all_iff dest: isdigit_not_special)

lemma segments_join_code:
  assumes "is_digit19 d" and "list_all deeper_segment_ok segs"
  shows "segments (join_code d segs) = [d] # segs"
proof -
  have "CHR ''.'' \<notin> set [d]"
    using assms(1) digit19_isdigit isdigit_not_special by auto
  moreover have "\<forall>s \<in> set segs. CHR ''.'' \<notin> set s"
    using assms(2) by (auto simp: list_all_iff dest: deeper_segment_chars)
  ultimately have "split_on (CHR ''.'') ([d] @ concat (map ((#) (CHR ''.'')) segs)) = [d] # segs"
    by (rule split_on_joined)
  then show ?thesis by (simp add: segments_def join_code_def)
qed

lemma valid_join_code:
  "is_digit19 d \<Longrightarrow> list_all deeper_segment_ok segs \<Longrightarrow> length segs \<le> 3 \<Longrightarrow>
     valid_cat_code (join_code d segs)"
  by (simp add: valid_cat_code_def segments_join_code first_segment_ok_def)

lemma valid_cat_codeD:
  assumes "valid_cat_code code"
  shows "\<exists>d segs. code = join_code d segs \<and> is_digit19 d \<and> list_all deeper_segment_ok segs \<and>
           length segs \<le> 3 \<and> segments code = [d] # segs"
proof -
  from assms obtain d where d: "hd (segments code) = [d]" "is_digit19 d"
    by (cases "hd (segments code)") (auto simp: valid_cat_code_def first_segment_ok_def)
  have "code = join_code d (tl (segments code))"
    using joined_split_on [of "CHR ''.''" code] d(1) by (simp add: segments_def join_code_def)
  moreover have "segments code = [d] # tl (segments code)"
    using d(1) by (cases "segments code") (auto simp: segments_def)
  moreover have "length (tl (segments code)) \<le> 3"
    using assms by (auto simp: valid_cat_code_def)
  moreover have "list_all deeper_segment_ok (tl (segments code))"
    using assms by (simp add: valid_cat_code_def)
  ultimately show ?thesis
    using d(2) by blast
qed

lemma join_code_no_space:
  "is_digit19 d \<Longrightarrow> list_all deeper_segment_ok segs \<Longrightarrow> CHR '' '' \<notin> set (join_code d segs)"
  using digit19_isdigit isdigit_not_special
  by (auto simp: join_code_def list_all_iff dest: deeper_segment_chars)

lemma first_token_eq:
  assumes "CHR '' '' \<notin> set p" and "p \<noteq> []"
  shows "first_token (replicate n (CHR '' '') @ p @ CHR '' '' # rest) = p"
proof -
  have "dropWhile (\<lambda>c. c = CHR '' '') (replicate n (CHR '' '') @ p @ CHR '' '' # rest) =
        dropWhile (\<lambda>c. c = CHR '' '') (p @ CHR '' '' # rest)"
    by (rule dropWhile_append2) simp
  also have "\<dots> = p @ CHR '' '' # rest"
    using assms by (cases p) auto
  finally show ?thesis
    using assms(1) by (auto simp: first_token_def takeWhile_tail)
qed


lemma join_code_snoc: "join_code d (segs @ [ds]) = join_code d segs @ CHR ''.'' # ds"
  by (simp add: join_code_def)

lemma slice_of_take:
  assumes "take idx line = replicate s x @ p" and "idx \<le> length line"
  shows "slice line s idx = p"
proof -
  have "slice line s idx = drop s (take idx line)"
    by (simp add: slice_def drop_take)
  then show ?thesis by (simp add: assms(1))
qed

lemma line_at_index:
  "idx < length line \<Longrightarrow> take idx line = q \<Longrightarrow> line = q @ line ! idx # drop (Suc idx) line"
  by (auto simp: id_take_nth_drop [symmetric])

text \<open>What the variables of the loop say about the part of the line read so far.\<close>

definition cat_inv :: "string \<Rightarrow> cat_vars \<Rightarrow> nat \<Rightarrow> bool" where
  "cat_inv line v idx =
    (idx \<le> length line \<and>
     (case parse_state v of
        CS_START \<Rightarrow> take idx line = replicate idx (CHR '' '')
      | LEVEL1 \<Rightarrow>
          (\<exists>d. take idx line = replicate (start_idx v) (CHR '' '') @ [d] \<and> is_digit19 d \<and>
               level v = 1)
      | LEVEL234A \<Rightarrow>
          (\<exists>d segs. take idx line =
               replicate (start_idx v) (CHR '' '') @ join_code d segs @ ''.'' \<and>
             is_digit19 d \<and> list_all deeper_segment_ok segs \<and>
             level v = length segs + 2 \<and> level v \<le> 4)
      | LEVEL234B \<Rightarrow>
          (\<exists>d segs ds. take idx line =
               replicate (start_idx v) (CHR '' '') @ join_code d segs @ CHR ''.'' # ds \<and>
             is_digit19 d \<and> list_all deeper_segment_ok segs \<and> deeper_segment_ok ds \<and>
             digit_count v = length ds \<and> level v = length segs + 2 \<and> level v \<le> 4)
      | _ \<Rightarrow>
          cat_code v = first_token line \<and> valid_cat_code (cat_code v) \<and>
          level v = length (segments (cat_code v))))"

lemma cat_inv_start:
  assumes inv: "cat_inv line v idx" and st: "parse_state v = CS_START"
    and i: "idx < length line" and step: "cat_char line v idx (line ! idx) = Inr v'"
  shows "cat_inv line v' (Suc idx)"
proof -
  from inv st have t: "take idx line = replicate idx (CHR '' '')"
    by (simp add: cat_inv_def)
  with i have t': "take (Suc idx) line = replicate idx (CHR '' '') @ [line ! idx]"
    by (simp add: take_Suc_conv_app_nth)
  show ?thesis
  proof (cases "line ! idx = CHR '' ''")
    case True
    with step st have "v' = v" by (simp add: cat_char_def)
    with t' True st i show ?thesis
      by (simp add: cat_inv_def replicate_append_same)
  next
    case False
    with step st have "v' = v\<lparr>start_idx := idx, level := 1, parse_state := LEVEL1\<rparr>"
      and "is_digit19 (line ! idx)"
      by (auto simp: cat_char_def split: if_splits)
    with t' i show ?thesis by (simp add: cat_inv_def)
  qed
qed

lemma cat_inv_level1:
  assumes inv: "cat_inv line v idx" and st: "parse_state v = LEVEL1"
    and i: "idx < length line" and step: "cat_char line v idx (line ! idx) = Inr v'"
  shows "cat_inv line v' (Suc idx)"
proof -
  from inv st obtain d where t: "take idx line = replicate (start_idx v) (CHR '' '') @ [d]"
    and d: "is_digit19 d" and l: "level v = 1"
    by (auto simp: cat_inv_def)
  from t i have t': "take (Suc idx) line =
      replicate (start_idx v) (CHR '' '') @ [d] @ [line ! idx]"
    by (simp add: take_Suc_conv_app_nth)
  show ?thesis
  proof (cases "line ! idx = CHR ''.''")
    case True
    with step st have "v' = v\<lparr>level := 2, parse_state := LEVEL234A\<rparr>"
      by (simp add: cat_char_def)
    moreover have "take (Suc idx) line =
        replicate (start_idx v) (CHR '' '') @ join_code d [] @ ''.''"
      using t' True by (simp add: join_code_def)
    ultimately show ?thesis
      using i d by (auto simp: cat_inv_def intro!: exI [of _ d] exI [of _ "[]"])
  next
    case False
    with step st have sp: "line ! idx = CHR '' ''"
      and v': "v' = v\<lparr>cat_code := slice line (start_idx v) idx, parse_state := CS_START_DESCR\<rparr>"
      by (auto simp: cat_char_def split: if_splits)
    from t i have sl: "slice line (start_idx v) idx = [d]"
      by (intro slice_of_take) auto
    have "line = replicate (start_idx v) (CHR '' '') @ [d] @ CHR '' '' # drop (Suc idx) line"
      using line_at_index [OF i t] sp by simp
    then have "first_token line =
        first_token (replicate (start_idx v) (CHR '' '') @ [d] @ CHR '' '' # drop (Suc idx) line)"
      by simp
    also have "\<dots> = [d]"
      using d digit19_isdigit isdigit_not_special by (intro first_token_eq) auto
    finally have ft: "first_token line = [d]" .
    have "valid_cat_code (join_code d [])" "segments (join_code d []) = [[d]]"
      using d by (simp_all add: valid_join_code segments_join_code)
    then have "valid_cat_code [d]" "segments [d] = [[d]]"
      by (simp_all add: join_code_def)
    with v' sl ft l i show ?thesis by (simp add: cat_inv_def)
  qed
qed

lemma cat_inv_level234a:
  assumes inv: "cat_inv line v idx" and st: "parse_state v = LEVEL234A"
    and i: "idx < length line" and step: "cat_char line v idx (line ! idx) = Inr v'"
  shows "cat_inv line v' (Suc idx)"
proof -
  from inv st obtain d segs where
    t: "take idx line = replicate (start_idx v) (CHR '' '') @ join_code d segs @ ''.''"
    and d: "is_digit19 d" "list_all deeper_segment_ok segs"
    and l: "level v = length segs + 2" "level v \<le> 4"
    by (auto simp: cat_inv_def)
  from step st have c: "is_digit19 (line ! idx)"
    and v': "v' = v\<lparr>parse_state := LEVEL234B, digit_count := 1\<rparr>"
    by (auto simp: cat_char_def split: if_splits)
  from t i have "take (Suc idx) line =
      replicate (start_idx v) (CHR '' '') @ join_code d segs @ CHR ''.'' # [line ! idx]"
    by (simp add: take_Suc_conv_app_nth)
  moreover have "deeper_segment_ok [line ! idx]"
    using c by (simp add: deeper_segment_ok_def digit19_isdigit)
  ultimately show ?thesis
    using v' d l i
    by (auto simp: cat_inv_def intro!: exI [of _ d] exI [of _ segs] exI [of _ "[line ! idx]"])
qed

lemma cat_inv_level234b:
  assumes inv: "cat_inv line v idx" and st: "parse_state v = LEVEL234B"
    and i: "idx < length line" and step: "cat_char line v idx (line ! idx) = Inr v'"
  shows "cat_inv line v' (Suc idx)"
proof -
  from inv st obtain d segs ds where
    t: "take idx line = replicate (start_idx v) (CHR '' '') @ join_code d segs @ CHR ''.'' # ds"
    and d: "is_digit19 d" "list_all deeper_segment_ok segs" "deeper_segment_ok ds"
    and n: "digit_count v = length ds"
    and l: "level v = length segs + 2" "level v \<le> 4"
    by (auto simp: cat_inv_def)
  from t i have t': "take (Suc idx) line =
      replicate (start_idx v) (CHR '' '') @ join_code d segs @ CHR ''.'' # ds @ [line ! idx]"
    by (simp add: take_Suc_conv_app_nth)
  consider (digit) "isdigit (line ! idx)"
    | (dot) "\<not> isdigit (line ! idx)" "line ! idx = CHR ''.''"
    | (space) "\<not> isdigit (line ! idx)" "line ! idx = CHR '' ''"
    using step st by (auto simp: cat_char_def split: if_splits)
  then show ?thesis
  proof cases
    case digit
    with step st have c: "digit_count v + 1 \<le> 2"
      and v': "v' = v\<lparr>digit_count := digit_count v + 1\<rparr>"
      by (auto simp: cat_char_def split: if_splits)
    have "deeper_segment_ok (ds @ [line ! idx])"
      using d(3) c n digit by (cases ds) (auto simp: deeper_segment_ok_def)
    with t' v' d l n i st show ?thesis
      by (auto simp: cat_inv_def
          intro!: exI [of _ d] exI [of _ segs] exI [of _ "ds @ [line ! idx]"])
  next
    case dot
    with step st have c: "level v + 1 \<le> 4"
      and v': "v' = v\<lparr>level := level v + 1, parse_state := LEVEL234A\<rparr>"
      by (auto simp: cat_char_def split: if_splits)
    have "take (Suc idx) line =
        replicate (start_idx v) (CHR '' '') @ join_code d (segs @ [ds]) @ ''.''"
      using t' dot by (simp add: join_code_snoc)
    with v' d l c i show ?thesis
      by (auto simp: cat_inv_def intro!: exI [of _ d] exI [of _ "segs @ [ds]"])
  next
    case space
    with step st have
      v': "v' = v\<lparr>cat_code := slice line (start_idx v) idx, parse_state := CS_START_DESCR\<rparr>"
      by (auto simp: cat_char_def split: if_splits)
    let ?code = "join_code d (segs @ [ds])"
    have t2: "take idx line = replicate (start_idx v) (CHR '' '') @ ?code"
      using t by (simp add: join_code_snoc)
    from t2 i have sl: "slice line (start_idx v) idx = ?code"
      by (intro slice_of_take) auto
    have ok: "list_all deeper_segment_ok (segs @ [ds])"
      using d by simp
    have "line = replicate (start_idx v) (CHR '' '') @ ?code @ CHR '' '' # drop (Suc idx) line"
      using line_at_index [OF i t2] space by simp
    then have "first_token line =
        first_token (replicate (start_idx v) (CHR '' '') @ ?code @ CHR '' '' # drop (Suc idx) line)"
      by simp
    also have "\<dots> = ?code"
      using join_code_no_space [OF d(1) ok] by (intro first_token_eq) (auto simp: join_code_def)
    finally have ft: "first_token line = ?code" .
    have "valid_cat_code ?code" "segments ?code = [d] # segs @ [ds]"
      using d(1) ok l by (simp_all add: valid_join_code segments_join_code)
    with v' sl ft l i show ?thesis by (simp add: cat_inv_def)
  qed
qed

lemma cat_inv_after_code:
  assumes inv: "cat_inv line v idx"
    and st: "parse_state v \<in> {CS_START_DESCR, CS_END_DESCR, END_COMMENT}"
    and i: "idx < length line" and step: "cat_char line v idx (line ! idx) = Inr v'"
  shows "cat_inv line v' (Suc idx)"
  using assms by (auto simp: cat_inv_def cat_char_def Let_def split: if_splits)

lemma cat_inv_step:
  assumes "cat_inv line v idx" and "idx < length line"
    and "cat_char line v idx (line ! idx) = Inr v'"
  shows "cat_inv line v' (Suc idx)"
  using assms cat_inv_start cat_inv_level1 cat_inv_level234a cat_inv_level234b cat_inv_after_code
  by (cases "parse_state v") auto

lemma cat_inv_entry:
  assumes "cat_inv line v idx" and "cat_char line v idx c = Inl (Cat_Entry code d cm lvl)"
  shows "code = first_token line \<and> valid_cat_code code \<and> lvl = length (segments code)"
  using assms by (auto simp: cat_inv_def cat_char_def Let_def split: CS.splits if_splits)

lemma drop_eq_ConsD:
  assumes "drop n xs = c # cs"
  shows "n < length xs \<and> c = xs ! n \<and> cs = drop (Suc n) xs"
proof -
  from assms have n: "n < length xs"
    by (cases "n < length xs") auto
  from assms Cons_nth_drop_Suc [OF n] n show ?thesis by simp
qed

lemma cat_scan_entry_sound:
  assumes "cat_inv line v idx" and "cs = drop idx line"
    and "cat_scan line v idx cs = Inl (Cat_Entry code d cm lvl)"
  shows "code = first_token line \<and> valid_cat_code code \<and> lvl = length (segments code)"
  using assms
proof (induction cs arbitrary: v idx)
  case Nil
  then show ?case by simp
next
  case (Cons c cs)
  from Cons.prems(2) have i: "idx < length line" and c: "c = line ! idx"
    and cs: "cs = drop (Suc idx) line"
    using drop_eq_ConsD [of idx line c cs] by simp_all
  show ?case
  proof (cases "cat_char line v idx c")
    case (Inl r)
    with Cons.prems(3) have "cat_char line v idx c = Inl (Cat_Entry code d cm lvl)"
      by simp
    with Cons.prems(1) show ?thesis by (rule cat_inv_entry)
  next
    case (Inr u)
    with Cons.prems(1) i c have "cat_inv line u (Suc idx)"
      by (auto intro: cat_inv_step)
    moreover from Inr Cons.prems(3) have "cat_scan line u (Suc idx) cs = Inl (Cat_Entry code d cm lvl)"
      by simp
    ultimately show ?thesis using cs by (intro Cons.IH) auto
  qed
qed

lemma parse_cat_entry_sound:
  assumes "parse_cat_file_line line = Cat_Entry code d cm lvl"
  shows "code = first_token line \<and> valid_cat_code code \<and> lvl = length (segments code)"
proof -
  have "cat_inv line cat_vars0 0"
    by (simp add: cat_inv_def cat_vars0_def)
  moreover from assms have "cat_scan line cat_vars0 0 line = Inl (Cat_Entry code d cm lvl)"
    by (auto simp: parse_cat_file_line_def split: sum.splits if_splits)
  ultimately show ?thesis by (intro cat_scan_entry_sound [where cs = line]) auto
qed

text \<open>A line that is not blank and whose first word is not a code is an error.\<close>

lemma cat_char_blank_start:
  "cat_char line v idx c = Inl Cat_Blank \<Longrightarrow> parse_state v = CS_START"
  by (auto simp: cat_char_def Let_def split: CS.splits if_splits)

lemma cat_scan_no_blank:
  "parse_state v \<noteq> CS_START \<Longrightarrow> cat_scan line v idx cs \<noteq> Inl Cat_Blank"
proof (induction cs arbitrary: v idx)
  case Nil
  show ?case by simp
next
  case (Cons c cs)
  show ?case
  proof (cases "cat_char line v idx c")
    case (Inl r)
    with Cons.prems cat_char_blank_start show ?thesis by auto
  next
    case (Inr u)
    with Cons.prems cat_char_leaves_start [OF Inr] have "parse_state u \<noteq> CS_START"
      by simp
    with Inr Cons.IH show ?thesis by simp
  qed
qed

lemma parse_cat_blank:
  assumes "parse_cat_file_line line = Cat_Blank"
  shows "first_token line = [] \<or> hd (first_token line) = CHR ''#'' \<or>
         hd (first_token line) = CHR ''\<newline>''"
proof (cases "dropWhile (\<lambda>c. c = CHR '' '') line")
  case Nil
  show ?thesis unfolding first_token_def Nil by simp
next
  case (Cons c r)
  then have c: "c \<noteq> CHR '' ''"
    using hd_dropWhile [of "\<lambda>c. c = CHR '' ''" line] by auto
  then have ft: "hd (first_token line) = c" "first_token line \<noteq> []"
    using Cons by (simp_all add: first_token_def)
  let ?n = "length (takeWhile (\<lambda>c. c = CHR '' '') line)"
  have tw: "takeWhile (\<lambda>c. c = CHR '' '') line = replicate ?n (CHR '' '')"
    by (rule replicate_length_same [symmetric]) (auto dest: set_takeWhileD)
  have line: "line = replicate ?n (CHR '' '') @ c # r"
    using takeWhile_dropWhile_id [of "\<lambda>c. c = CHR '' ''" line] Cons tw by simp
  have "cat_scan line cat_vars0 0 line = cat_scan line cat_vars0 0 (replicate ?n (CHR '' '') @ c # r)"
    using line by simp
  also have "\<dots> = cat_scan line cat_vars0 ?n (c # r)"
    by (simp add: cat_scan_append cat_scan_spaces cat_vars0_def)
  finally have sc: "cat_scan line cat_vars0 0 line = cat_scan line cat_vars0 ?n (c # r)" .
  show ?thesis
  proof (cases "cat_char line cat_vars0 ?n c")
    case (Inl x)
    with sc assms have "cat_char line cat_vars0 ?n c = Inl Cat_Blank"
      by (simp add: parse_cat_file_line_def)
    with c have "c = CHR ''#'' \<or> c = CHR ''\<newline>''"
      by (auto simp: cat_char_def cat_vars0_def split: if_splits)
    with ft show ?thesis by auto
  next
    case (Inr u)
    with c cat_char_leaves_start [OF Inr] have u: "parse_state u \<noteq> CS_START"
      by simp
    from sc Inr have sc': "cat_scan line cat_vars0 0 line = cat_scan line u (Suc ?n) r"
      by simp
    show ?thesis
    proof (cases "cat_scan line u (Suc ?n) r")
      case (Inl x)
      with sc' assms cat_scan_no_blank [OF u] show ?thesis
        by (auto simp: parse_cat_file_line_def)
    next
      case (Inr w)
      with cat_scan_start_iff [OF Inr] u sc' assms show ?thesis
        by (simp add: parse_cat_file_line_def)
    qed
  qed
qed

lemma parse_cat_rejects:
  assumes "first_token line \<noteq> []" and "hd (first_token line) \<noteq> CHR ''#''"
    and "hd (first_token line) \<noteq> CHR ''\<newline>''" and "\<not> valid_cat_code (first_token line)"
  shows "\<exists>e. parse_cat_file_line line = Cat_Error e"
proof (cases "parse_cat_file_line line")
  case (Cat_Error e)
  then show ?thesis by simp
next
  case Cat_Blank
  with assms parse_cat_blank show ?thesis by blast
next
  case (Cat_Entry code d cm lvl)
  with assms(4) parse_cat_entry_sound show ?thesis by blast
qed

lemma cat_scan_append_Inr:
  "cat_scan line v idx xs = Inr v' \<Longrightarrow>
     cat_scan line v idx (xs @ ys) = cat_scan line v' (idx + length xs) ys"
  by (simp add: cat_scan_append)


lemma cat_scan_segment:
  assumes "parse_state v = LEVEL1 \<and> level v = 1 \<or> parse_state v = LEVEL234B"
    and "level v + 1 \<le> 4" and "deeper_segment_ok s"
  shows "\<exists>v'. cat_scan line v idx (CHR ''.'' # s) = Inr v' \<and> parse_state v' = LEVEL234B \<and>
           level v' = level v + 1 \<and> start_idx v' = start_idx v"
proof -
  from assms(3) consider a where "s = [a]" "is_digit19 a"
    | a b where "s = [a, b]" "is_digit19 a" "isdigit b"
    by (cases s; cases "tl s") (auto simp: deeper_segment_ok_def)
  then show ?thesis
  proof cases
    case 1
    with assms(1,2) show ?thesis
      by (auto simp: cat_char_def dest: isdigit_not_special)
  next
    case 2
    with assms(1,2) show ?thesis
      by (auto simp: cat_char_def dest: isdigit_not_special)
  qed
qed

lemma cat_scan_segments:
  assumes "parse_state v = LEVEL1 \<and> level v = 1 \<or> parse_state v = LEVEL234B"
    and "level v + length segs \<le> 4" and "list_all deeper_segment_ok segs"
  shows "\<exists>v'. cat_scan line v idx (concat (map ((#) (CHR ''.'')) segs)) = Inr v' \<and>
           (parse_state v' = LEVEL1 \<and> level v' = 1 \<or> parse_state v' = LEVEL234B) \<and>
           level v' = level v + length segs \<and> start_idx v' = start_idx v"
  using assms
proof (induction segs arbitrary: v idx)
  case Nil
  then show ?case by simp
next
  case (Cons s segs)
  from Cons.prems obtain u where u: "cat_scan line v idx (CHR ''.'' # s) = Inr u"
    "parse_state u = LEVEL234B" "level u = level v + 1" "start_idx u = start_idx v"
    using cat_scan_segment [of v s line idx] by auto
  from Cons.prems u obtain v' where
    "cat_scan line u (idx + length (CHR ''.'' # s)) (concat (map ((#) (CHR ''.'')) segs)) = Inr v'"
    "parse_state v' = LEVEL1 \<and> level v' = 1 \<or> parse_state v' = LEVEL234B"
    "level v' = level u + length segs" "start_idx v' = start_idx u"
    using Cons.IH [of u "idx + length (CHR ''.'' # s)"] by auto
  with u show ?case
    using cat_scan_append [of line v idx "CHR ''.'' # s" "concat (map ((#) (CHR ''.'')) segs)"]
    by auto
qed

lemma cat_scan_descr:
  "parse_state v = CS_END_DESCR \<Longrightarrow> CHR ''#'' \<notin> set cs \<Longrightarrow> CHR ''\<newline>'' \<notin> set cs \<Longrightarrow>
     cat_scan line v idx cs = Inr v"
  by (induction cs arbitrary: idx) (auto simp: cat_char_def)

lemma slice_middle: "slice (a @ b @ c) (length a) (length a + length b) = b"
  by (simp add: slice_def)

lemma parse_cat_accepts:
  assumes code: "valid_cat_code code"
    and descr: "dsc \<noteq> []" "hd dsc \<noteq> CHR '' ''" "CHR ''#'' \<notin> set dsc" "CHR ''\<newline>'' \<notin> set dsc"
  shows "parse_cat_file_line (replicate n (CHR '' '') @ code @ CHR '' '' # dsc @ ''\<newline>'') =
           Cat_Entry code (rstrip dsc) [] (length (segments code))"
proof -
  from code obtain d segs where c: "code = join_code d segs" "is_digit19 d"
    "list_all deeper_segment_ok segs" "length segs \<le> 3" "segments code = [d] # segs"
    using valid_cat_codeD by blast
  from descr obtain c0 dr where dsc: "dsc = c0 # dr"
    by (cases dsc) auto
  let ?A = "replicate n (CHR '' '')"
  let ?T = "concat (map ((#) (CHR ''.'')) segs)"
  let ?L = "?A @ code @ CHR '' '' # dsc @ ''\<newline>''"
  let ?v1 = "cat_vars0\<lparr>start_idx := n, level := 1, parse_state := LEVEL1\<rparr>"
  have s1: "cat_scan ?L cat_vars0 0 ?A = Inr cat_vars0"
    by (simp add: cat_scan_spaces cat_vars0_def)
  have s2: "cat_scan ?L cat_vars0 n [d] = Inr ?v1"
    using c(2) digit19_isdigit [of d] isdigit_not_special [of d]
    by (simp add: cat_char_def cat_vars0_def)
  obtain v2 where s3: "cat_scan ?L ?v1 (Suc n) ?T = Inr v2"
    and v2: "parse_state v2 = LEVEL1 \<and> level v2 = 1 \<or> parse_state v2 = LEVEL234B"
      "level v2 = 1 + length segs" "start_idx v2 = n"
    using cat_scan_segments [of ?v1 segs ?L "Suc n"] c(3,4) by auto
  let ?i3 = "Suc n + length ?T"
  let ?v3 = "v2\<lparr>cat_code := slice ?L n ?i3, parse_state := CS_START_DESCR\<rparr>"
  have s4: "cat_scan ?L v2 ?i3 '' '' = Inr ?v3"
    using v2 by (auto simp: cat_char_def isdigit_def)
  let ?v4 = "?v3\<lparr>descr_start := Suc ?i3, parse_state := CS_END_DESCR\<rparr>"
  have s5: "cat_scan ?L ?v3 (Suc ?i3) [c0] = Inr ?v4"
    using descr dsc by (auto simp: cat_char_def)
  have s6: "cat_scan ?L ?v4 (Suc (Suc ?i3)) dr = Inr ?v4"
    using descr dsc by (intro cat_scan_descr) auto
  have s7: "cat_scan ?L ?v4 (Suc (Suc ?i3) + length dr) ''\<newline>'' =
      Inl (Cat_Entry (slice ?L n ?i3) (rstrip (slice ?L (Suc ?i3) (Suc (Suc ?i3) + length dr))) []
             (1 + length segs))"
    using v2 by (simp add: cat_char_def)
  have len: "length code = Suc (length ?T)"
    by (simp add: c(1) join_code_def)
  have "slice (?A @ code @ (CHR '' '' # dsc @ ''\<newline>'')) (length ?A) (length ?A + length code) = code"
    by (rule slice_middle)
  then have sl1: "slice ?L n ?i3 = code"
    by (simp add: len)
  have "slice ((?A @ code @ '' '') @ dsc @ ''\<newline>'') (length (?A @ code @ '' ''))
          (length (?A @ code @ '' '') + length dsc) = dsc"
    by (rule slice_middle)
  then have sl2: "slice ?L (Suc ?i3) (Suc (Suc ?i3) + length dr) = dsc"
    by (simp add: len dsc)
  have e1: "\<And>R. cat_scan ?L cat_vars0 0 (?A @ R) = cat_scan ?L cat_vars0 n R"
    using cat_scan_append_Inr [OF s1] by simp
  have e2: "\<And>R. cat_scan ?L cat_vars0 n (d # R) = cat_scan ?L ?v1 (Suc n) R"
    using cat_scan_append_Inr [OF s2] by (simp del: cat_scan.simps)
  have e3: "\<And>R. cat_scan ?L ?v1 (Suc n) (?T @ R) = cat_scan ?L v2 ?i3 R"
    using cat_scan_append_Inr [OF s3] by (simp del: cat_scan.simps)
  have e4: "\<And>R. cat_scan ?L v2 ?i3 (CHR '' '' # R) = cat_scan ?L ?v3 (Suc ?i3) R"
    using cat_scan_append_Inr [OF s4] by (simp del: cat_scan.simps)
  have e5: "\<And>R. cat_scan ?L ?v3 (Suc ?i3) (c0 # R) = cat_scan ?L ?v4 (Suc (Suc ?i3)) R"
    using cat_scan_append_Inr [OF s5] by (simp del: cat_scan.simps)
  have e6: "\<And>R. cat_scan ?L ?v4 (Suc (Suc ?i3)) (dr @ R) =
      cat_scan ?L ?v4 (Suc (Suc ?i3) + length dr) R"
    using cat_scan_append_Inr [OF s6] by (simp del: cat_scan.simps)
  have "cat_scan ?L cat_vars0 0 (?A @ d # ?T @ CHR '' '' # c0 # dr @ ''\<newline>'') =
      Inl (Cat_Entry (slice ?L n ?i3) (rstrip (slice ?L (Suc ?i3) (Suc (Suc ?i3) + length dr))) []
             (1 + length segs))"
    by (simp only: e1 e2 e3 e4 e5 e6 s7)
  then have "cat_scan ?L cat_vars0 0 (?A @ d # ?T @ CHR '' '' # c0 # dr @ ''\<newline>'') =
      Inl (Cat_Entry code (rstrip dsc) [] (1 + length segs))"
    by (simp only: sl1 sl2)
  moreover have "?A @ d # ?T @ CHR '' '' # c0 # dr @ ''\<newline>'' = ?L"
    by (simp add: c(1) dsc join_code_def)
  ultimately have "cat_scan ?L cat_vars0 0 ?L =
      Inl (Cat_Entry code (rstrip dsc) [] (1 + length segs))"
    by (simp only:)
  then show ?thesis
    by (simp add: parse_cat_file_line_def c(5))
qed


lemmas code_eval = segments_def valid_cat_code_def first_segment_ok_def deeper_segment_ok_def
  first_token_def

text \<open>
  C3. When the category parser accepts a line, the code it returns is the first word of
  the line, the level is the number of segments of the code between periods and lies
  between 1 and 4, the first segment is one digit 1 to 9, and every deeper segment is
  one or two digits of which the first is 1 to 9. A line whose first word is not of
  that shape (and does not start a comment) is an error: \<open>08\<close> as a segment, a segment
  of three digits, a fifth segment. Every code of that shape is accepted, so \<open>8\<close>,
  \<open>80\<close> and \<open>99\<close> are segments.
\<close>

theorem cat_code_shape:
  "(parse_cat_file_line line = Cat_Entry code d cm lvl \<longrightarrow>
      code = first_token line \<and> lvl = length (segments code) \<and> 1 \<le> lvl \<and> lvl \<le> 4 \<and>
      first_segment_ok (hd (segments code)) \<and>
      list_all deeper_segment_ok (tl (segments code))) \<and>
   (first_token line \<noteq> [] \<and> hd (first_token line) \<noteq> CHR ''#'' \<and>
    hd (first_token line) \<noteq> CHR ''\<newline>'' \<and> \<not> valid_cat_code (first_token line) \<longrightarrow>
      (\<exists>e. parse_cat_file_line line = Cat_Error e)) \<and>
   (valid_cat_code code' \<and> dsc \<noteq> [] \<and> hd dsc \<noteq> CHR '' '' \<and> CHR ''#'' \<notin> set dsc \<and>
    CHR ''\<newline>'' \<notin> set dsc \<longrightarrow>
      parse_cat_file_line (replicate n (CHR '' '') @ code' @ CHR '' '' # dsc @ ''\<newline>'') =
        Cat_Entry code' (rstrip dsc) [] (length (segments code'))) \<and>
   parse_cat_file_line ''1.08 x\<newline>'' = Cat_Error Invalid_Cat_Format \<and>
   parse_cat_file_line ''1.123 x\<newline>'' = Cat_Error Too_Many_Digits \<and>
   parse_cat_file_line ''1.2.3.4.5 x\<newline>'' = Cat_Error Nested_Too_Deeply"
proof -
  have a: "code = first_token line \<and> lvl = length (segments code) \<and> 1 \<le> lvl \<and> lvl \<le> 4 \<and>
      first_segment_ok (hd (segments code)) \<and> list_all deeper_segment_ok (tl (segments code))"
    if "parse_cat_file_line line = Cat_Entry code d cm lvl"
    using parse_cat_entry_sound [OF that] by (auto simp: valid_cat_code_def)
  have b: "\<exists>e. parse_cat_file_line line = Cat_Error e"
    if "first_token line \<noteq> []" "hd (first_token line) \<noteq> CHR ''#''"
      "hd (first_token line) \<noteq> CHR ''\<newline>''" "\<not> valid_cat_code (first_token line)"
    using that by (rule parse_cat_rejects)
  have c: "parse_cat_file_line (replicate n (CHR '' '') @ code' @ CHR '' '' # dsc @ ''\<newline>'') =
        Cat_Entry code' (rstrip dsc) [] (length (segments code'))"
    if "valid_cat_code code'" "dsc \<noteq> []" "hd dsc \<noteq> CHR '' ''" "CHR ''#'' \<notin> set dsc"
      "CHR ''\<newline>'' \<notin> set dsc"
    using that by (rule parse_cat_accepts)
  have e: "parse_cat_file_line ''1.08 x\<newline>'' = Cat_Error Invalid_Cat_Format"
    "parse_cat_file_line ''1.123 x\<newline>'' = Cat_Error Too_Many_Digits"
    "parse_cat_file_line ''1.2.3.4.5 x\<newline>'' = Cat_Error Nested_Too_Deeply"
    by (simp_all add: parser_eval)
  from a b c e show ?thesis by blast
qed

theorem cat_code_shape_witness:
  "parse_cat_file_line ''2.1.2.1 Grounds maintenance # lawn\<newline>'' =
     Cat_Entry ''2.1.2.1'' ''Grounds maintenance'' ''# lawn'' 4 \<and>
   segments ''2.1.2.1'' = [''2'', ''1'', ''2'', ''1''] \<and>
   list_all deeper_segment_ok [''1'', ''2'', ''1''] \<and>
   first_token ''2.1.123 x\<newline>'' = ''2.1.123'' \<and> \<not> valid_cat_code ''2.1.123'' \<and>
   (\<exists>e. parse_cat_file_line ''2.1.123 x\<newline>'' = Cat_Error e) \<and>
   valid_cat_code ''1.80'' \<and>
   parse_cat_file_line ''  1.80 x\<newline>'' = Cat_Entry ''1.80'' ''x'' [] 2"
proof -
  note t = cat_code_shape [where line = "''2.1.2.1 Grounds maintenance # lawn\<newline>''"
      and code = "''2.1.2.1''" and d = "''Grounds maintenance''" and cm = "''# lawn''" and lvl = 4]
  have 1: "parse_cat_file_line ''2.1.2.1 Grounds maintenance # lawn\<newline>'' =
     Cat_Entry ''2.1.2.1'' ''Grounds maintenance'' ''# lawn'' 4"
    by (simp add: parser_eval)
  have 2: "segments ''2.1.2.1'' = [''2'', ''1'', ''2'', ''1'']"
    by (simp add: code_eval)
  from t 1 have "list_all deeper_segment_ok (tl (segments ''2.1.2.1''))"
    by blast
  then have 3: "list_all deeper_segment_ok [''1'', ''2'', ''1'']"
    by (simp add: 2)
  have 4: "first_token ''2.1.123 x\<newline>'' = ''2.1.123''"
    by (simp add: code_eval)
  have 5: "\<not> valid_cat_code ''2.1.123''"
    by (simp add: code_eval)
  have 6: "\<exists>e. parse_cat_file_line ''2.1.123 x\<newline>'' = Cat_Error e"
    using cat_code_shape [where line = "''2.1.123 x\<newline>''"] 4 5 by simp
  have 7: "valid_cat_code ''1.80''"
    by (simp add: code_eval is_digit19_def isdigit_def)
  have "parse_cat_file_line (replicate 2 (CHR '' '') @ ''1.80'' @ CHR '' '' # ''x'' @ ''\<newline>'') =
      Cat_Entry ''1.80'' (rstrip ''x'') [] (length (segments ''1.80''))"
    using cat_code_shape [where code' = "''1.80''" and dsc = "''x''" and n = 2] 7 by simp
  then have 8: "parse_cat_file_line ''  1.80 x\<newline>'' = Cat_Entry ''1.80'' ''x'' [] 2"
    by (simp add: code_eval rstrip_def isspace_def numeral_2_eq_2)
  from 1 2 3 4 5 6 7 8 show ?thesis by simp
qed

section \<open>The date field of a journal line\<close>

text \<open>The number that a string of decimal digits denotes.\<close>

definition dec_value :: "string \<Rightarrow> nat" where
  "dec_value s = foldl (\<lambda>a c. a * 10 + int_of_char c) 0 s"

text \<open>A day of a month of the journal year, as the claim words it.\<close>

definition valid_date :: "nat \<Rightarrow> nat \<Rightarrow> nat \<Rightarrow> bool" where
  "valid_date m d year =
     (1 \<le> m \<and> m \<le> 12 \<and> 1 \<le> d \<and> d \<le> MAX_DATE ! m \<and> \<not> (m = 2 \<and> d = 29 \<and> \<not> isleap year))"

definition date_error :: "nat \<Rightarrow> nat \<Rightarrow> journal_error" where
  "date_error m d =
     (if \<not> (1 \<le> m \<and> m \<le> 12) then Invalid_Month
      else if \<not> (1 \<le> d \<and> d \<le> MAX_DATE ! m) then Invalid_Date
      else Invalid_Leap_Year_Date)"

lemma isdigit_not_separator:
  "isdigit c \<Longrightarrow> c \<noteq> CHR ''/'' \<and> c \<noteq> CHR '','' \<and> c \<noteq> CHR '' '' \<and> c \<noteq> CHR ''#'' \<and>
     c \<noteq> CHR ''\<newline>'' \<and> c \<noteq> CHR ''.'' \<and> c \<noteq> CHR ''-''"
  by (auto simp: isdigit_def)

lemma journal_scan_append_Inr:
  "journal_scan line y v idx xs = Inr v' \<Longrightarrow>
     journal_scan line y v idx (xs @ ys) = journal_scan line y v' (idx + length xs) ys"
  by (simp add: journal_scan_append)

lemma one_or_two:
  assumes "length s = 1 \<or> length s = 2"
  obtains a where "s = [a]" | a b where "s = [a, b]"
  using assms by (cases s; cases "tl s") auto

lemma journal_scan_month:
  assumes "jparse_state v = TJ_START" and "list_all isdigit ms"
    and "length ms = 1 \<or> length ms = 2"
  shows "journal_scan line y v idx ms =
    Inr (v\<lparr>month_value := dec_value ms, digit_ctr := length ms, jparse_state := MONTH\<rparr>)"
  using assms(3)
proof (cases rule: one_or_two)
  case (1 a)
  with assms(1,2) show ?thesis
    using isdigit_not_separator [of a] by (simp add: journal_char_def dec_value_def)
next
  case (2 a b)
  with assms(1,2) show ?thesis
    using isdigit_not_separator [of a] isdigit_not_separator [of b]
    by (simp add: journal_char_def dec_value_def)
qed

lemma journal_scan_day:
  assumes "jparse_state v = DATE" and "digit_ctr v = 0" and "date_value v = 0"
    and "list_all isdigit ds" and "length ds = 1 \<or> length ds = 2"
  shows "journal_scan line y v idx ds =
    Inr (v\<lparr>date_value := dec_value ds, digit_ctr := length ds\<rparr>)"
  using assms(5)
proof (cases rule: one_or_two)
  case (1 a)
  with assms(1-4) show ?thesis
    using isdigit_not_separator [of a] by (simp add: journal_char_def dec_value_def)
next
  case (2 a b)
  with assms(1-4) show ?thesis
    using isdigit_not_separator [of a] isdigit_not_separator [of b]
    by (simp add: journal_char_def dec_value_def)
qed

lemma journal_scan_date_field:
  assumes ms: "list_all isdigit ms" "length ms = 1 \<or> length ms = 2"
    and ds: "list_all isdigit ds" "length ds = 1 \<or> length ds = 2"
  shows "journal_scan line year journal_vars0 0 (replicate n (CHR '' '') @ ms @ ''/'' @ ds @ '','') =
    (if valid_date (dec_value ms) (dec_value ds) year then
       Inr (journal_vars0\<lparr>month_value := dec_value ms, digit_ctr := length ds,
              date_value := dec_value ds,
              jdate := format_date (dec_value ms) (dec_value ds) year,
              jparse_state := TJ_START_DESCR\<rparr>)
     else Inl (Journal_Error (date_error (dec_value ms) (dec_value ds))))"
proof -
  let ?v0 = journal_vars0
  let ?m = "dec_value ms" and ?d = "dec_value ds"
  let ?v1 = "?v0\<lparr>month_value := ?m, digit_ctr := length ms, jparse_state := MONTH\<rparr>"
  have s0: "journal_scan line year ?v0 0 (replicate n (CHR '' '')) = Inr ?v0"
    by (simp add: journal_scan_spaces journal_vars0_def)
  have s1: "journal_scan line year ?v0 n ms = Inr ?v1"
    using ms by (intro journal_scan_month) (simp_all add: journal_vars0_def)
  have e0: "\<And>R. journal_scan line year ?v0 0 (replicate n (CHR '' '') @ R) =
      journal_scan line year ?v0 n R"
    using journal_scan_append_Inr [OF s0] by simp
  have e1: "\<And>R. journal_scan line year ?v0 n (ms @ R) =
      journal_scan line year ?v1 (n + length ms) R"
    using journal_scan_append_Inr [OF s1] by simp
  show ?thesis
  proof (cases "1 \<le> ?m \<and> ?m \<le> 12")
    case False
    then have "journal_scan line year ?v1 (n + length ms) (''/'' @ ds @ '','') =
        Inl (Journal_Error Invalid_Month)"
      by (auto simp: journal_char_def isdigit_def)
    with False show ?thesis
      by (simp only: e0 e1) (auto simp: valid_date_def date_error_def)
  next
    case True
    let ?v2 = "?v1\<lparr>digit_ctr := 0, date_value := 0, jparse_state := DATE\<rparr>"
    let ?v3 = "?v2\<lparr>date_value := ?d, digit_ctr := length ds\<rparr>"
    have s2: "journal_scan line year ?v1 (n + length ms) ''/'' = Inr ?v2"
      using True by (simp add: journal_char_def isdigit_def)
    have s3: "journal_scan line year ?v2 (n + length ms + 1) ds = Inr ?v3"
      using ds by (intro journal_scan_day) simp_all
    have e2: "\<And>R. journal_scan line year ?v1 (n + length ms) (''/'' @ R) =
        journal_scan line year ?v2 (n + length ms + 1) R"
      using journal_scan_append_Inr [OF s2] by (simp del: journal_scan.simps)
    have e3: "\<And>R. journal_scan line year ?v2 (n + length ms + 1) (ds @ R) =
        journal_scan line year ?v3 (n + length ms + 1 + length ds) R"
      using journal_scan_append_Inr [OF s3] by (simp del: journal_scan.simps)
    have s4: "journal_scan line year ?v3 (n + length ms + 1 + length ds) '','' =
      (if valid_date ?m ?d year then
         Inr (journal_vars0\<lparr>month_value := ?m, digit_ctr := length ds, date_value := ?d,
                jdate := format_date ?m ?d year, jparse_state := TJ_START_DESCR\<rparr>)
       else Inl (Journal_Error (date_error ?m ?d)))"
      using True
      by (auto simp: journal_char_def isdigit_def valid_date_def date_error_def MAX_DATE_def)
    show ?thesis
      by (simp only: e0 e1 e2 e3 s4)
  qed
qed


lemma str_nat_1: "n < 10 \<Longrightarrow> str_nat n = [digit_char n]"
  by (subst str_nat.simps) simp

lemma str_nat_step: "10 \<le> n \<Longrightarrow> str_nat n = str_nat (n div 10) @ [digit_char (n mod 10)]"
  by (subst str_nat.simps) simp

lemma str_nat_2:
  assumes "10 \<le> n" and "n < 100"
  shows "str_nat n = [digit_char (n div 10), digit_char (n mod 10)]"
proof -
  from assms have "n div 10 < 10" by simp
  then have "str_nat (n div 10) = [digit_char (n div 10)]" by (rule str_nat_1)
  with str_nat_step [OF assms(1)] show ?thesis by simp
qed

lemma str_nat_3:
  assumes "100 \<le> n" and "n < 1000"
  shows "str_nat n = [digit_char (n div 100), digit_char (n div 10 mod 10), digit_char (n mod 10)]"
proof -
  from assms have "10 \<le> n" "10 \<le> n div 10" "n div 10 < 100" by simp_all
  moreover have "n div 10 div 10 = n div 100" by (simp add: div_mult2_eq)
  ultimately show ?thesis
    using str_nat_step [of n] str_nat_2 [of "n div 10"] by simp
qed

lemma str_nat_4:
  assumes "1000 \<le> n" and "n < 10000"
  shows "str_nat n = [digit_char (n div 1000), digit_char (n div 100 mod 10),
           digit_char (n div 10 mod 10), digit_char (n mod 10)]"
proof -
  from assms have "10 \<le> n" "100 \<le> n div 10" "n div 10 < 1000" by simp_all
  moreover have "n div 10 div 10 = n div 100" "n div 10 div 100 = n div 1000"
    by (simp_all add: div_mult2_eq)
  ultimately show ?thesis
    using str_nat_step [of n] str_nat_3 [of "n div 10"] by simp
qed

lemma digit_char_0: "digit_char 0 = CHR ''0''"
  by (simp add: digit_char_def)

lemma replicate_small:
  "replicate (2 - 1) x = [x]" "replicate (4 - 1) x = [x, x, x]" "replicate (4 - 2) x = [x, x]"
  "replicate (4 - 3) x = [x]"
  by (simp_all add: eval_nat_numeral)

lemma format_0d_2:
  assumes "n < 100"
  shows "format_0d 2 n = [digit_char (n div 10), digit_char (n mod 10)]"
proof (cases "n < 10")
  case True
  then have "str_nat n = [digit_char n]" by (rule str_nat_1)
  then have "format_0d 2 n = replicate (2 - 1) (CHR ''0'') @ [digit_char n]"
    by (simp add: format_0d_def)
  with True show ?thesis
    by (simp only: replicate_small) (simp add: digit_char_0)
next
  case False
  with assms have "str_nat n = [digit_char (n div 10), digit_char (n mod 10)]"
    by (intro str_nat_2) simp_all
  then show ?thesis by (simp add: format_0d_def)
qed

lemma format_0d_4:
  assumes "n < 10000"
  shows "format_0d 4 n = [digit_char (n div 1000), digit_char (n div 100 mod 10),
           digit_char (n div 10 mod 10), digit_char (n mod 10)]"
proof -
  consider "n < 10" | "10 \<le> n" "n < 100" | "100 \<le> n" "n < 1000" | "1000 \<le> n"
    by linarith
  then show ?thesis
  proof cases
    case 1
    then have "format_0d 4 n = replicate (4 - 1) (CHR ''0'') @ [digit_char n]"
      by (simp add: format_0d_def str_nat_1)
    with 1 show ?thesis
      by (simp only: replicate_small) (simp add: digit_char_0)
  next
    case 2
    then have "format_0d 4 n =
        replicate (4 - 2) (CHR ''0'') @ [digit_char (n div 10), digit_char (n mod 10)]"
      by (simp add: format_0d_def str_nat_2)
    moreover from 2 have "n div 100 = 0" "n div 1000 = 0" by simp_all
    ultimately show ?thesis
      by (simp only: replicate_small) (simp add: digit_char_0)
  next
    case 3
    then have "format_0d 4 n = replicate (4 - 3) (CHR ''0'') @
        [digit_char (n div 100), digit_char (n div 10 mod 10), digit_char (n mod 10)]"
      by (simp add: format_0d_def str_nat_3)
    moreover from 3 have "n div 100 < 10" "n div 1000 = 0" by simp_all
    ultimately show ?thesis
      by (simp only: replicate_small) (simp add: digit_char_0)
  next
    case 4
    with assms show ?thesis
      by (simp add: format_0d_def str_nat_4)
  qed
qed

lemma journal_char_keeps_jdate:
  assumes "jparse_state v \<notin> {TJ_START, MONTH, DATE}" and "journal_char line y v idx c = Inr v'"
  shows "jdate v' = jdate v \<and> jparse_state v' \<notin> {TJ_START, MONTH, DATE}"
  using assms by (auto simp: journal_char_def split: TJ.splits if_splits)

lemma journal_char_entry_jdate:
  "journal_char line y v idx c = Inl (Journal_Entry jd js ja jt jc) \<Longrightarrow> jd = jdate v"
  by (auto simp: journal_char_def split: TJ.splits if_splits)

lemma journal_scan_entry_jdate:
  assumes "jparse_state v \<notin> {TJ_START, MONTH, DATE}"
    and "journal_scan line y v idx cs = Inl (Journal_Entry jd js ja jt jc)"
  shows "jd = jdate v"
  using assms
proof (induction cs arbitrary: v idx)
  case Nil
  then show ?case by simp
next
  case (Cons c cs)
  show ?case
  proof (cases "journal_char line y v idx c")
    case (Inl r)
    with Cons.prems(2) show ?thesis by (auto dest: journal_char_entry_jdate)
  next
    case (Inr u)
    with Cons.prems journal_char_keeps_jdate [OF Cons.prems(1) Inr] Cons.IH [of u "Suc idx"]
    show ?thesis by simp
  qed
qed

lemma MAX_DATE_bound: "m \<le> 12 \<Longrightarrow> MAX_DATE ! m \<le> 31"
proof -
  assume "m \<le> 12"
  then have "MAX_DATE ! m \<in> set MAX_DATE"
    by (intro nth_mem) (simp add: MAX_DATE_def)
  moreover have "\<forall>x \<in> set MAX_DATE. x \<le> 31"
    by (simp add: MAX_DATE_def)
  ultimately show ?thesis by blast
qed

lemma parse_journal_prefix_error:
  "journal_scan (pre @ rest) y journal_vars0 0 pre = Inl r \<Longrightarrow>
     parse_journal_file_line (pre @ rest) y = r"
  by (simp add: parse_journal_file_line_def journal_scan_append)

lemma parse_journal_prefix_entry:
  "journal_scan (pre @ rest) y journal_vars0 0 pre = Inr v \<Longrightarrow>
   parse_journal_file_line (pre @ rest) y = Journal_Entry jd js ja jt jc \<Longrightarrow>
     journal_scan (pre @ rest) y v (length pre) rest = Inl (Journal_Entry jd js ja jt jc)"
  by (simp add: parse_journal_file_line_def journal_scan_append split: sum.splits if_splits)

lemmas date_eval = dec_value_def valid_date_def date_error_def MAX_DATE_def isleap_def
  int_of_char_def isdigit_def digit_char_def

text \<open>
  C5. For a date field of one or two month digits, a slash, one or two day digits and a
  comma, the parser goes on to the description exactly when the month is 1 to 12, the
  day is 1 to the entry of \<open>MAX_DATE\<close> for the month (29 for February), and the day is
  not February 29 of a year that is not a leap year; every other date is an error. The
  date of an accepted line is the month and the day in two digits each and the year,
  four digits for a year below 10000.
\<close>

theorem date_field_validation:
  "(list_all isdigit ms \<and> (length ms = 1 \<or> length ms = 2) \<and>
   list_all isdigit ds \<and> (length ds = 1 \<or> length ds = 2) \<longrightarrow>
   journal_scan line year journal_vars0 0 (replicate n (CHR '' '') @ ms @ ''/'' @ ds @ '','') =
     (if valid_date (dec_value ms) (dec_value ds) year then
        Inr (journal_vars0\<lparr>month_value := dec_value ms, digit_ctr := length ds,
               date_value := dec_value ds,
               jdate := format_date (dec_value ms) (dec_value ds) year,
               jparse_state := TJ_START_DESCR\<rparr>)
      else Inl (Journal_Error (date_error (dec_value ms) (dec_value ds)))) \<and>
   (\<not> valid_date (dec_value ms) (dec_value ds) year \<longrightarrow>
      parse_journal_file_line (replicate n (CHR '' '') @ ms @ ''/'' @ ds @ '','' @ rest) year =
        Journal_Error (date_error (dec_value ms) (dec_value ds))) \<and>
   (parse_journal_file_line (replicate n (CHR '' '') @ ms @ ''/'' @ ds @ '','' @ rest) year =
      Journal_Entry jd js ja jt jc \<longrightarrow>
      valid_date (dec_value ms) (dec_value ds) year \<and>
      jd = format_date (dec_value ms) (dec_value ds) year)) \<and>
   (valid_date m d year \<and> year < 10000 \<longrightarrow>
      format_date m d year =
        [digit_char (m div 10), digit_char (m mod 10), CHR ''/'',
         digit_char (d div 10), digit_char (d mod 10), CHR ''/'',
         digit_char (year div 1000), digit_char (year div 100 mod 10),
         digit_char (year div 10 mod 10), digit_char (year mod 10)])"
proof (intro impI conjI)
  assume a: "list_all isdigit ms \<and> (length ms = 1 \<or> length ms = 2) \<and>
    list_all isdigit ds \<and> (length ds = 1 \<or> length ds = 2)"
  let ?pre = "replicate n (CHR '' '') @ ms @ ''/'' @ ds @ '',''"
  let ?m = "dec_value ms" and ?d = "dec_value ds"
  let ?v = "journal_vars0\<lparr>month_value := ?m, digit_ctr := length ds, date_value := ?d,
               jdate := format_date ?m ?d year, jparse_state := TJ_START_DESCR\<rparr>"
  have sc: "journal_scan L year journal_vars0 0 ?pre =
     (if valid_date ?m ?d year then Inr ?v else Inl (Journal_Error (date_error ?m ?d)))" for L
    using a by (intro journal_scan_date_field) simp_all
  from sc show "journal_scan line year journal_vars0 0 ?pre =
     (if valid_date ?m ?d year then Inr ?v else Inl (Journal_Error (date_error ?m ?d)))" .
  have line: "replicate n (CHR '' '') @ ms @ ''/'' @ ds @ '','' @ rest = ?pre @ rest"
    by simp
  {
    assume n: "\<not> valid_date ?m ?d year"
    have "parse_journal_file_line (?pre @ rest) year = Journal_Error (date_error ?m ?d)"
      by (rule parse_journal_prefix_error) (simp only: sc n if_False)
    then show "parse_journal_file_line (replicate n (CHR '' '') @ ms @ ''/'' @ ds @ '','' @ rest)
        year = Journal_Error (date_error ?m ?d)"
      by (simp only: line)
  next
    assume "parse_journal_file_line (replicate n (CHR '' '') @ ms @ ''/'' @ ds @ '','' @ rest)
        year = Journal_Entry jd js ja jt jc"
    then have e: "parse_journal_file_line (?pre @ rest) year = Journal_Entry jd js ja jt jc"
      by (simp only: line)
    show v: "valid_date ?m ?d year"
    proof (rule ccontr)
      assume n: "\<not> valid_date ?m ?d year"
      have "parse_journal_file_line (?pre @ rest) year = Journal_Error (date_error ?m ?d)"
        by (rule parse_journal_prefix_error) (simp only: sc n if_False)
      with e show False by simp
    qed
    have "journal_scan (?pre @ rest) year journal_vars0 0 ?pre = Inr ?v"
      by (simp only: sc v if_True)
    then have "journal_scan (?pre @ rest) year ?v (length ?pre) rest =
        Inl (Journal_Entry jd js ja jt jc)"
      using e by (rule parse_journal_prefix_entry)
    then have "jd = jdate ?v"
      by (rule journal_scan_entry_jdate [rotated]) simp
    then show "jd = format_date ?m ?d year" by simp
  }
next
  assume "valid_date m d year \<and> year < 10000"
  then have "m < 100" "d < 100" "year < 10000"
    using MAX_DATE_bound [of m] by (auto simp: valid_date_def)
  then show "format_date m d year =
        [digit_char (m div 10), digit_char (m mod 10), CHR ''/'',
         digit_char (d div 10), digit_char (d mod 10), CHR ''/'',
         digit_char (year div 1000), digit_char (year div 100 mod 10),
         digit_char (year div 10 mod 10), digit_char (year mod 10)]"
    by (simp add: format_date_def format_0d_2 format_0d_4)
qed


theorem date_field_validation_witness:
  "valid_date 3 9 2015 \<and> format_date 3 9 2015 = ''03/09/2015'' \<and>
   (\<exists>js ja jt jc. parse_journal_file_line
       ''3/9, Rappahannock Electric (Union chk), 292.03, xfr, 2.2.1\<newline>'' 2015 =
     Journal_Entry ''03/09/2015'' js ja jt jc) \<and>
   valid_date 2 29 2016 \<and>
   (\<exists>v. journal_scan [] 2016 journal_vars0 0 ''2/29,'' = Inr v \<and> jdate v = ''02/29/2016'') \<and>
   \<not> valid_date 2 29 2015 \<and>
   parse_journal_file_line ''2/29, Rent, 800.00, chk, 2.1\<newline>'' 2015 =
     Journal_Error Invalid_Leap_Year_Date"
proof -
  have dig: "list_all isdigit ''3'' \<and> (length ''3'' = 1 \<or> length ''3'' = 2) \<and>
      list_all isdigit ''9'' \<and> (length ''9'' = 1 \<or> length ''9'' = 2)"
    "list_all isdigit ''2'' \<and> (length ''2'' = 1 \<or> length ''2'' = 2) \<and>
      list_all isdigit ''29'' \<and> (length ''29'' = 1 \<or> length ''29'' = 2)"
    by (simp_all add: isdigit_def)
  have val: "dec_value ''3'' = 3" "dec_value ''9'' = 9" "dec_value ''2'' = 2"
    "dec_value ''29'' = 29"
    by (simp_all add: dec_value_def int_of_char_def)
  have v1: "valid_date 3 9 2015" and v2: "valid_date 2 29 2016" and v3: "\<not> valid_date 2 29 2015"
    by (simp_all add: date_eval)
  have f1: "format_date 3 9 2015 = ''03/09/2015''"
    using date_field_validation [where m = 3 and d = 9 and year = 2015] v1
    by (simp add: digit_char_def)
  have f2: "format_date 2 29 2016 = ''02/29/2016''"
    using date_field_validation [where m = 2 and d = 29 and year = 2016] v2
    by (simp add: digit_char_def)
  have e: "parse_journal_file_line
       ''3/9, Rappahannock Electric (Union chk), 292.03, xfr, 2.2.1\<newline>'' 2015 =
     Journal_Entry ''03/09/2015'' ''Rappahannock Electric (Union chk)'' (29203 / 100) ''xfr''
       ''2.2.1''"
    by (simp add: parser_eval)
  have "''03/09/2015'' = format_date (dec_value ''3'') (dec_value ''9'') 2015"
    using date_field_validation [where ms = "''3''" and ds = "''9''" and year = 2015 and n = 0
        and rest = "'' Rappahannock Electric (Union chk), 292.03, xfr, 2.2.1\<newline>''"
        and jd = "''03/09/2015''" and js = "''Rappahannock Electric (Union chk)''"
        and ja = "29203 / 100" and jt = "''xfr''" and jc = "''2.2.1''"] dig(1) e
    by simp
  have s: "journal_scan [] 2016 journal_vars0 0 ''2/29,'' =
      Inr (journal_vars0\<lparr>month_value := 2, digit_ctr := 2, date_value := 29,
             jdate := ''02/29/2016'', jparse_state := TJ_START_DESCR\<rparr>)"
    using date_field_validation [where ms = "''2''" and ds = "''29''" and year = 2016 and n = 0
        and line = "[]"] dig(2) v2
    by (simp add: val f2 del: journal_scan.simps)
  have r: "parse_journal_file_line ''2/29, Rent, 800.00, chk, 2.1\<newline>'' 2015 =
     Journal_Error Invalid_Leap_Year_Date"
    using date_field_validation [where ms = "''2''" and ds = "''29''" and year = 2015 and n = 0
        and rest = "'' Rent, 800.00, chk, 2.1\<newline>''"] dig(2) v3
    by (simp add: val date_error_def MAX_DATE_def)
  have e': "\<exists>js ja jt jc. parse_journal_file_line
       ''3/9, Rappahannock Electric (Union chk), 292.03, xfr, 2.2.1\<newline>'' 2015 =
     Journal_Entry ''03/09/2015'' js ja jt jc"
    using e by blast
  have s': "\<exists>v. journal_scan [] 2016 journal_vars0 0 ''2/29,'' = Inr v \<and>
      jdate v = ''02/29/2016''"
    by (rule exI, rule conjI, rule s) simp
  from v1 f1 e' v2 s' v3 r show ?thesis by (intro conjI)
qed

section \<open>The amount field of a journal line\<close>

text \<open>
  The amount field as the claim words it: an optional minus sign, the dollar digits, a
  period and the cents digits.
\<close>

definition amount_negative :: "string \<Rightarrow> bool" where
  "amount_negative fld = (fld \<noteq> [] \<and> hd fld = CHR ''-'')"

definition amount_body :: "string \<Rightarrow> string" where
  "amount_body fld = (if amount_negative fld then tl fld else fld)"

definition amount_dollars :: "string \<Rightarrow> string" where
  "amount_dollars fld = takeWhile isdigit (amount_body fld)"

definition amount_rest :: "string \<Rightarrow> string" where
  "amount_rest fld = dropWhile isdigit (amount_body fld)"

definition amount_cents :: "string \<Rightarrow> string" where
  "amount_cents fld = tl (amount_rest fld)"

definition amount_syntax :: "string \<Rightarrow> bool" where
  "amount_syntax fld =
     (amount_dollars fld \<noteq> [] \<and> amount_rest fld \<noteq> [] \<and> hd (amount_rest fld) = CHR ''.'' \<and>
      length (amount_cents fld) = 2 \<and> list_all isdigit (amount_cents fld))"

definition amount_value :: "string \<Rightarrow> real" where
  "amount_value fld =
     (if amount_negative fld then - 1 else 1) *
     (real (dec_value (amount_dollars fld)) + real (dec_value (amount_cents fld)) / 100)"

text \<open>The accumulation of one more digit, as the loop does it on a \<open>float\<close>.\<close>

definition add_digit :: "real \<Rightarrow> char \<Rightarrow> real" where
  "add_digit a c = a * 10 + real (int_of_char c)"

lemma real_foldl_digits:
  "real (foldl (\<lambda>a c. a * 10 + int_of_char c) a s) = foldl add_digit (real a) s"
  by (induction s arbitrary: a) (simp_all add: add_digit_def)

lemma real_dec_value: "real (dec_value s) = foldl add_digit 0 s"
  using real_foldl_digits [of 0 s] by (simp add: dec_value_def)

lemma real_dec_value_Cons: "real (dec_value (c # s)) = foldl add_digit (real (int_of_char c)) s"
  using real_foldl_digits [of "int_of_char c" s] by (simp add: dec_value_def)

lemma journal_scan_dollar_digits:
  "jparse_state v = DOLLARS \<Longrightarrow> list_all isdigit dl \<Longrightarrow>
     journal_scan line y v idx dl =
       Inr (v\<lparr>digit_ctr := digit_ctr v + length dl, dollars := foldl add_digit (dollars v) dl\<rparr>)"
  by (induction dl arbitrary: v idx) (simp_all add: journal_char_def add_digit_def)

lemma journal_scan_cents_digits:
  "jparse_state v = CENTS \<Longrightarrow> list_all isdigit cs \<Longrightarrow>
     journal_scan line y v idx cs =
       Inr (v\<lparr>digit_ctr := digit_ctr v + length cs, cents := foldl add_digit (cents v) cs\<rparr>)"
  by (induction cs arbitrary: v idx) (simp_all add: journal_char_def add_digit_def)

lemma takeWhile_all_digits: "list_all isdigit (takeWhile isdigit s)"
  by (auto simp: list_all_iff dest: set_takeWhileD)

lemma dropWhile_digits_Nil: "dropWhile isdigit s = [] \<longleftrightarrow> list_all isdigit s"
  by (simp add: list_all_iff)

lemma journal_scan_cents_field:
  assumes st: "jparse_state v = CENTS" "digit_ctr v = 0" "cents v = 0"
    and r: "CHR '','' \<notin> set r"
  shows "journal_scan line y v idx (r @ '','') =
    (if length r = 2 \<and> list_all isdigit r then
       Inr (v\<lparr>digit_ctr := 2, cents := real (dec_value r),
              jamt := (if sign_flag v then - (dollars v + real (dec_value r) / 100)
                       else dollars v + real (dec_value r) / 100),
              jparse_state := START_TYPE\<rparr>)
     else Inl (Journal_Error Invalid_Amount))"
proof -
  let ?cs = "takeWhile isdigit r" and ?r2 = "dropWhile isdigit r"
  let ?v1 = "v\<lparr>digit_ctr := length ?cs, cents := real (dec_value ?cs)\<rparr>"
  have s1: "journal_scan line y v idx ?cs = Inr ?v1"
    using journal_scan_cents_digits [OF st(1) takeWhile_all_digits, of line y idx r] st(2,3)
    by (simp add: real_dec_value)
  have split: "r @ '','' = ?cs @ ?r2 @ '',''"
    by simp
  have e1: "journal_scan line y v idx (r @ '','') =
      journal_scan line y ?v1 (idx + length ?cs) (?r2 @ '','')"
    unfolding split by (rule journal_scan_append_Inr [OF s1])
  show ?thesis
  proof (cases ?r2)
    case Nil
    then have all: "list_all isdigit r" and cs: "?cs = r"
      by (simp_all add: dropWhile_digits_Nil list_all_iff)
    show ?thesis
      unfolding e1 Nil using st(1) all
      by (simp add: cs journal_char_def isdigit_def)
  next
    case (Cons x r2)
    then have x: "\<not> isdigit x"
      using hd_dropWhile [of isdigit r] by auto
    have "x \<in> set r"
      using Cons set_dropWhileD [of x isdigit r] by simp
    with r have "x \<noteq> CHR '',''" by auto
    moreover have "\<not> list_all isdigit r"
      using Cons dropWhile_digits_Nil [of r] by simp
    ultimately show ?thesis
      unfolding e1 Cons using st(1) x by (simp add: journal_char_def)
  qed
qed

lemma journal_scan_dollars_field:
  assumes st: "jparse_state v = DOLLARS" and b: "CHR '','' \<notin> set b"
  shows "journal_scan line y v idx (b @ '','') =
    (if digit_ctr v + length (takeWhile isdigit b) \<noteq> 0 \<and> dropWhile isdigit b \<noteq> [] \<and>
        hd (dropWhile isdigit b) = CHR ''.'' \<and> length (tl (dropWhile isdigit b)) = 2 \<and>
        list_all isdigit (tl (dropWhile isdigit b)) then
       Inr (v\<lparr>digit_ctr := 2, dollars := foldl add_digit (dollars v) (takeWhile isdigit b),
              cents := real (dec_value (tl (dropWhile isdigit b))),
              jamt := (if sign_flag v
                then - (foldl add_digit (dollars v) (takeWhile isdigit b) +
                        real (dec_value (tl (dropWhile isdigit b))) / 100)
                else foldl add_digit (dollars v) (takeWhile isdigit b) +
                        real (dec_value (tl (dropWhile isdigit b))) / 100),
              jparse_state := START_TYPE\<rparr>)
     else Inl (Journal_Error Invalid_Amount))"
proof -
  let ?dl = "takeWhile isdigit b" and ?rest = "dropWhile isdigit b"
  let ?v1 = "v\<lparr>digit_ctr := digit_ctr v + length ?dl, dollars := foldl add_digit (dollars v) ?dl\<rparr>"
  have s1: "journal_scan line y v idx ?dl = Inr ?v1"
    by (rule journal_scan_dollar_digits [OF st takeWhile_all_digits])
  have split: "b @ '','' = ?dl @ ?rest @ '',''"
    by simp
  have e1: "journal_scan line y v idx (b @ '','') =
      journal_scan line y ?v1 (idx + length ?dl) (?rest @ '','')"
    unfolding split by (rule journal_scan_append_Inr [OF s1])
  show ?thesis
  proof (cases ?rest)
    case Nil
    show ?thesis
      unfolding e1 Nil using st by (simp add: journal_char_def isdigit_def)
  next
    case (Cons x r)
    then have x: "\<not> isdigit x"
      using hd_dropWhile [of isdigit b] by auto
    have "set (x # r) \<subseteq> set b"
      using Cons set_dropWhileD [of _ isdigit b] by auto
    with b have r: "CHR '','' \<notin> set r" by auto
    show ?thesis
    proof (cases "x = CHR ''.'' \<and> digit_ctr v + length ?dl \<noteq> 0")
      case False
      then show ?thesis
        unfolding e1 Cons using st x by (auto simp: journal_char_def)
    next
      case True
      let ?v2 = "?v1\<lparr>digit_ctr := 0, cents := 0, jparse_state := CENTS\<rparr>"
      have "journal_scan line y ?v1 (idx + length ?dl) ((x # r) @ '','') =
          journal_scan line y ?v2 (Suc (idx + length ?dl)) (r @ '','')"
        using True st x by (simp add: journal_char_def)
      also have "\<dots> =
        (if length r = 2 \<and> list_all isdigit r then
           Inr (?v2\<lparr>digit_ctr := 2, cents := real (dec_value r),
              jamt := (if sign_flag ?v2 then - (dollars ?v2 + real (dec_value r) / 100)
                       else dollars ?v2 + real (dec_value r) / 100),
              jparse_state := START_TYPE\<rparr>)
         else Inl (Journal_Error Invalid_Amount))"
        by (rule journal_scan_cents_field) (simp_all add: r)
      finally show ?thesis
        unfolding e1 Cons using True by simp
    qed
  qed
qed

lemma journal_scan_amt_spaces:
  "jparse_state v = START_AMT \<Longrightarrow> journal_scan line y v idx (replicate n (CHR '' '')) = Inr v"
  by (induction n arbitrary: idx) (simp_all add: journal_char_def)

lemma journal_scan_amount_start:
  assumes st: "jparse_state v = START_AMT" "\<not> sign_flag v"
    and fld: "CHR '','' \<notin> set fld" "fld = [] \<or> hd fld \<noteq> CHR '' ''"
  shows "journal_scan line y v idx (fld @ '','') =
    (if amount_syntax fld then
       Inr (v\<lparr>sign_flag := amount_negative fld, digit_ctr := 2,
              dollars := real (dec_value (amount_dollars fld)),
              cents := real (dec_value (amount_cents fld)),
              jamt := amount_value fld, jparse_state := START_TYPE\<rparr>)
     else Inl (Journal_Error Invalid_Amount))"
proof (cases fld)
  case Nil
  with st show ?thesis
    by (simp add: journal_char_def isdigit_def amount_syntax_def amount_dollars_def
        amount_body_def amount_negative_def)
next
  case (Cons c f)
  with fld have c: "c \<noteq> CHR '' ''" and f: "CHR '','' \<notin> set f" by auto
  consider (minus) "c = CHR ''-''" | (digit) "isdigit c" | (other) "c \<noteq> CHR ''-''" "\<not> isdigit c"
    by blast
  then show ?thesis
  proof cases
    case minus
    let ?v1 = "v\<lparr>sign_flag := True, digit_ctr := 0, dollars := 0, jparse_state := DOLLARS\<rparr>"
    have "journal_scan line y v idx (fld @ '','') = journal_scan line y ?v1 (Suc idx) (f @ '','')"
      using st minus Cons by (simp add: journal_char_def)
    also note journal_scan_dollars_field [of ?v1 f line y "Suc idx", OF _ f]
    finally show ?thesis
      using minus Cons
      by (simp add: amount_syntax_def amount_dollars_def amount_rest_def amount_cents_def
          amount_body_def amount_negative_def amount_value_def real_dec_value)
  next
    case digit
    then have nm: "c \<noteq> CHR ''-''" by (auto simp: isdigit_def)
    have sf: "v\<lparr>sign_flag := False\<rparr> = v"
      using st(2) by (cases v) simp
    let ?v1 = "v\<lparr>digit_ctr := 1, dollars := real (int_of_char c), jparse_state := DOLLARS\<rparr>"
    have "journal_scan line y v idx (fld @ '','') = journal_scan line y ?v1 (Suc idx) (f @ '','')"
      using st digit c nm Cons by (simp add: journal_char_def)
    also note journal_scan_dollars_field [of ?v1 f line y "Suc idx", OF _ f]
    finally show ?thesis
      using digit nm Cons st(2)
      by (simp add: amount_syntax_def amount_dollars_def amount_rest_def amount_cents_def
          amount_body_def amount_negative_def amount_value_def real_dec_value_Cons sf)
  next
    case other
    with st c Cons show ?thesis
      by (simp add: journal_char_def amount_syntax_def amount_dollars_def
          amount_body_def amount_negative_def)
  qed
qed

lemma journal_scan_amount_field:
  assumes st: "jparse_state v = START_AMT" "\<not> sign_flag v"
    and fld: "CHR '','' \<notin> set fld" "fld = [] \<or> hd fld \<noteq> CHR '' ''"
  shows "journal_scan line y v idx (replicate n (CHR '' '') @ fld @ '','') =
    (if amount_syntax fld then
       Inr (v\<lparr>sign_flag := amount_negative fld, digit_ctr := 2,
              dollars := real (dec_value (amount_dollars fld)),
              cents := real (dec_value (amount_cents fld)),
              jamt := amount_value fld, jparse_state := START_TYPE\<rparr>)
     else Inl (Journal_Error Invalid_Amount))"
proof -
  have "journal_scan line y v idx (replicate n (CHR '' '') @ fld @ '','') =
      journal_scan line y v (idx + length (replicate n (CHR '' ''))) (fld @ '','')"
    by (rule journal_scan_append_Inr) (rule journal_scan_amt_spaces [OF st(1)])
  also note journal_scan_amount_start [OF st fld]
  finally show ?thesis .
qed

text \<open>The amount syntax, spelled out.\<close>

lemma amount_syntax_iff:
  "amount_syntax fld \<longleftrightarrow>
     (\<exists>sgn dl c1 c2. fld = sgn @ dl @ ''.'' @ [c1, c2] \<and> (sgn = [] \<or> sgn = ''-'') \<and>
        dl \<noteq> [] \<and> list_all isdigit dl \<and> isdigit c1 \<and> isdigit c2)"
proof
  assume a: "amount_syntax fld"
  let ?sgn = "if amount_negative fld then ''-'' else []"
  have 1: "fld = ?sgn @ amount_body fld"
    by (cases fld) (auto simp: amount_negative_def amount_body_def)
  have 2: "amount_body fld = amount_dollars fld @ amount_rest fld"
    by (simp add: amount_dollars_def amount_rest_def)
  from a obtain c1 c2 where 3: "amount_rest fld = ''.'' @ [c1, c2]" "isdigit c1" "isdigit c2"
    by (cases "amount_rest fld"; cases "amount_cents fld"; cases "tl (amount_cents fld)")
      (auto simp: amount_syntax_def amount_cents_def)
  have "fld = ?sgn @ amount_dollars fld @ ''.'' @ [c1, c2]"
    using 1 2 3(1) by simp
  moreover have "amount_dollars fld \<noteq> []" "list_all isdigit (amount_dollars fld)"
    using a by (simp_all add: amount_syntax_def amount_dollars_def takeWhile_all_digits)
  ultimately show "\<exists>sgn dl c1 c2. fld = sgn @ dl @ ''.'' @ [c1, c2] \<and> (sgn = [] \<or> sgn = ''-'') \<and>
        dl \<noteq> [] \<and> list_all isdigit dl \<and> isdigit c1 \<and> isdigit c2"
    using 3(2,3) by (intro exI [of _ ?sgn] exI [of _ "amount_dollars fld"] exI [of _ c1]
        exI [of _ c2]) simp
next
  assume "\<exists>sgn dl c1 c2. fld = sgn @ dl @ ''.'' @ [c1, c2] \<and> (sgn = [] \<or> sgn = ''-'') \<and>
        dl \<noteq> [] \<and> list_all isdigit dl \<and> isdigit c1 \<and> isdigit c2"
  then obtain sgn dl c1 c2 where f: "fld = sgn @ dl @ ''.'' @ [c1, c2]"
    and s: "sgn = [] \<or> sgn = ''-''" and d: "dl \<noteq> []" "list_all isdigit dl"
    and c: "isdigit c1" "isdigit c2"
    by blast
  from d have hd: "hd dl \<noteq> CHR ''-''"
    by (cases dl) (auto simp: isdigit_def)
  have body: "amount_body fld = dl @ [CHR ''.'', c1, c2]"
    using f s d hd by (cases dl) (auto simp: amount_body_def amount_negative_def)
  have nd: "\<not> isdigit (CHR ''.'')"
    by (simp add: isdigit_def)
  have tw: "takeWhile isdigit (dl @ [CHR ''.'', c1, c2]) = dl"
    using d(2) nd by (simp add: takeWhile_tail list_all_iff)
  have dw: "dropWhile isdigit (dl @ [CHR ''.'', c1, c2]) = [CHR ''.'', c1, c2]"
    using d(2) nd by (simp add: dropWhile_append3 list_all_iff)
  show "amount_syntax fld"
    using d c by (simp add: amount_syntax_def amount_dollars_def amount_rest_def amount_cents_def
        body tw dw)
qed

text \<open>The amount of an accepted line is the amount of its third field.\<close>

fun is_entry :: "journal_line \<Rightarrow> bool" where
  "is_entry (Journal_Entry jd js ja jt jc) = True"
| "is_entry _ = False"

lemma comma_not_digit: "\<not> isdigit (CHR '','')"
  by (simp add: isdigit_def)

lemma journal_char_date_states:
  assumes "jparse_state v \<in> {TJ_START, MONTH, DATE}"
  shows "case journal_char line y v idx c of
      Inl r \<Rightarrow> \<not> is_entry r
    | Inr v' \<Rightarrow> if c = CHR '','' then jparse_state v' = TJ_START_DESCR
               else jparse_state v' \<in> {TJ_START, MONTH, DATE}"
  using assms comma_not_digit by (cases "jparse_state v") (simp_all add: journal_char_def)

lemma journal_char_descr_states:
  assumes "jparse_state v \<in> {TJ_START_DESCR, TJ_END_DESCR}"
  shows "case journal_char line y v idx c of
      Inl r \<Rightarrow> \<not> is_entry r
    | Inr v' \<Rightarrow> if c = CHR '','' then jparse_state v' = START_AMT \<and> \<not> sign_flag v'
               else jparse_state v' \<in> {TJ_START_DESCR, TJ_END_DESCR}"
  using assms by (cases "jparse_state v") (simp_all add: journal_char_def)

lemma journal_char_keeps_jamt:
  assumes "jparse_state v \<in> {START_TYPE, END_TYPE, START_CAT, END_CAT}"
  shows "case journal_char line y v idx c of
      Inl r \<Rightarrow> (\<forall>jd js ja jt jc. r = Journal_Entry jd js ja jt jc \<longrightarrow> ja = jamt v)
    | Inr v' \<Rightarrow> jamt v' = jamt v \<and> jparse_state v' \<in> {START_TYPE, END_TYPE, START_CAT, END_CAT}"
  using assms by (cases "jparse_state v") (simp_all add: journal_char_def)


lemma journal_scan_date_states:
  assumes "jparse_state v \<in> {TJ_START, MONTH, DATE}" and "CHR '','' \<notin> set f"
  shows "case journal_scan line y v idx (f @ '','') of
      Inl r \<Rightarrow> \<not> is_entry r
    | Inr v' \<Rightarrow> jparse_state v' = TJ_START_DESCR"
  using assms
proof (induction f arbitrary: v idx)
  case Nil
  with journal_char_date_states [where v = v and line = line and y = y and idx = idx and c = "CHR '',''"] show ?case
    by (cases "journal_char line y v idx (CHR '','')") simp_all
next
  case (Cons c f)
  then have c: "c \<noteq> CHR '',''" and f: "CHR '','' \<notin> set f" by auto
  note ch = journal_char_date_states [where v = v and line = line and y = y and idx = idx and c = c,
      OF Cons.prems(1)]
  show ?case
  proof (cases "journal_char line y v idx c")
    case (Inl r)
    with ch show ?thesis by simp
  next
    case (Inr u)
    with ch c have "jparse_state u \<in> {TJ_START, MONTH, DATE}" by simp
    from Cons.IH [OF this f, of "Suc idx"] Inr show ?thesis by simp
  qed
qed

lemma journal_scan_descr_states:
  assumes "jparse_state v \<in> {TJ_START_DESCR, TJ_END_DESCR}" and "CHR '','' \<notin> set f"
  shows "case journal_scan line y v idx (f @ '','') of
      Inl r \<Rightarrow> \<not> is_entry r
    | Inr v' \<Rightarrow> jparse_state v' = START_AMT \<and> \<not> sign_flag v'"
  using assms
proof (induction f arbitrary: v idx)
  case Nil
  with journal_char_descr_states [where v = v and line = line and y = y and idx = idx and c = "CHR '',''"] show ?case
    by (cases "journal_char line y v idx (CHR '','')") simp_all
next
  case (Cons c f)
  then have c: "c \<noteq> CHR '',''" and f: "CHR '','' \<notin> set f" by auto
  note ch = journal_char_descr_states [where v = v and line = line and y = y and idx = idx and c = c,
      OF Cons.prems(1)]
  show ?case
  proof (cases "journal_char line y v idx c")
    case (Inl r)
    with ch show ?thesis by simp
  next
    case (Inr u)
    with ch c have "jparse_state u \<in> {TJ_START_DESCR, TJ_END_DESCR}" by simp
    from Cons.IH [OF this f, of "Suc idx"] Inr show ?thesis by simp
  qed
qed

lemma journal_scan_entry_jamt:
  assumes "jparse_state v \<in> {START_TYPE, END_TYPE, START_CAT, END_CAT}"
    and "journal_scan line y v idx cs = Inl (Journal_Entry jd js ja jt jc)"
  shows "ja = jamt v"
  using assms
proof (induction cs arbitrary: v idx)
  case Nil
  then show ?case by simp
next
  case (Cons c cs)
  note ch = journal_char_keeps_jamt [where v = v and line = line and y = y and idx = idx
      and c = c, OF Cons.prems(1)]
  show ?case
  proof (cases "journal_char line y v idx c")
    case (Inl r)
    with ch Cons.prems(2) show ?thesis by simp
  next
    case (Inr u)
    with ch have u: "jparse_state u \<in> {START_TYPE, END_TYPE, START_CAT, END_CAT}"
      and j: "jamt u = jamt v" by simp_all
    from Inr Cons.prems(2) have "journal_scan line y u (Suc idx) cs =
        Inl (Journal_Entry jd js ja jt jc)" by simp
    from Cons.IH [OF u this] j show ?thesis by simp
  qed
qed

lemma parse_journal_entry_amount:
  assumes fdate: "CHR '','' \<notin> set fdate" and fdescr: "CHR '','' \<notin> set fdescr"
    and fld: "CHR '','' \<notin> set fld" "fld = [] \<or> hd fld \<noteq> CHR '' ''"
    and e: "parse_journal_file_line
        ((fdate @ '','') @ (fdescr @ '','') @ (replicate n (CHR '' '') @ fld @ '','') @ rest) year =
      Journal_Entry jd js ja jt jc"
  shows "amount_syntax fld \<and> ja = amount_value fld"
proof -
  let ?L = "(fdate @ '','') @ (fdescr @ '','') @ (replicate n (CHR '' '') @ fld @ '','') @ rest"
  let ?E = "Journal_Entry jd js ja jt jc"
  from e have sc: "journal_scan ?L year journal_vars0 0 ?L = Inl ?E"
    unfolding parse_journal_file_line_def by (auto split: sum.splits if_splits)
  have d: "case journal_scan ?L year journal_vars0 0 (fdate @ '','') of
      Inl r \<Rightarrow> \<not> is_entry r | Inr v' \<Rightarrow> jparse_state v' = TJ_START_DESCR"
    by (rule journal_scan_date_states) (simp_all add: journal_vars0_def fdate)
  obtain v1 where v1: "journal_scan ?L year journal_vars0 0 (fdate @ '','') = Inr v1"
  proof (cases "journal_scan ?L year journal_vars0 0 (fdate @ '','')")
    case (Inl r)
    then have "journal_scan ?L year journal_vars0 0 ?L = Inl r"
      by (simp only: journal_scan_append sum.case)
    with sc d Inl show ?thesis by auto
  next
    case (Inr u)
    with that show ?thesis by blast
  qed
  from journal_scan_append_Inr [OF v1] sc
  have sc1: "journal_scan ?L year v1 (0 + length (fdate @ '',''))
        ((fdescr @ '','') @ (replicate n (CHR '' '') @ fld @ '','') @ rest) = Inl ?E"
    by simp
  from d v1 have st1: "jparse_state v1 = TJ_START_DESCR" by simp
  let ?i1 = "0 + length (fdate @ '','')"
  have d2: "case journal_scan ?L year v1 ?i1 (fdescr @ '','') of
      Inl r \<Rightarrow> \<not> is_entry r | Inr v' \<Rightarrow> jparse_state v' = START_AMT \<and> \<not> sign_flag v'"
    by (rule journal_scan_descr_states) (simp_all add: st1 fdescr)
  obtain v2 where v2: "journal_scan ?L year v1 ?i1 (fdescr @ '','') = Inr v2"
  proof (cases "journal_scan ?L year v1 ?i1 (fdescr @ '','')")
    case (Inl r)
    then have "journal_scan ?L year v1 ?i1
        ((fdescr @ '','') @ (replicate n (CHR '' '') @ fld @ '','') @ rest) = Inl r"
      by (simp only: journal_scan_append sum.case)
    with sc1 d2 Inl show ?thesis by auto
  next
    case (Inr u)
    with that show ?thesis by blast
  qed
  from journal_scan_append_Inr [OF v2] sc1
  have sc2: "journal_scan ?L year v2 (?i1 + length (fdescr @ '',''))
        ((replicate n (CHR '' '') @ fld @ '','') @ rest) = Inl ?E"
    by simp
  from d2 v2 have st2: "jparse_state v2 = START_AMT" "\<not> sign_flag v2" by simp_all
  let ?i2 = "?i1 + length (fdescr @ '','')"
  let ?v3 = "v2\<lparr>sign_flag := amount_negative fld, digit_ctr := 2,
              dollars := real (dec_value (amount_dollars fld)),
              cents := real (dec_value (amount_cents fld)),
              jamt := amount_value fld, jparse_state := START_TYPE\<rparr>"
  note a = journal_scan_amount_field [OF st2 fld, of ?L year ?i2 n]
  have syn: "amount_syntax fld"
  proof (rule ccontr)
    assume "\<not> amount_syntax fld"
    with a have "journal_scan ?L year v2 ?i2 (replicate n (CHR '' '') @ fld @ '','') =
        Inl (Journal_Error Invalid_Amount)" by simp
    then have "journal_scan ?L year v2 ?i2 ((replicate n (CHR '' '') @ fld @ '','') @ rest) =
        Inl (Journal_Error Invalid_Amount)"
      by (simp only: journal_scan_append sum.case)
    with sc2 show False by simp
  qed
  with a have "journal_scan ?L year v2 ?i2 (replicate n (CHR '' '') @ fld @ '','') = Inr ?v3"
    by simp
  from journal_scan_append_Inr [OF this, of rest] sc2
  have "journal_scan ?L year ?v3 (?i2 + length (replicate n (CHR '' '') @ fld @ '','')) rest =
      Inl ?E"
    by simp
  then have "ja = jamt ?v3"
    by (rule journal_scan_entry_jamt [rotated]) simp
  with syn show ?thesis by simp
qed

lemmas amount_eval = amount_syntax_def amount_dollars_def amount_rest_def amount_cents_def
  amount_body_def amount_negative_def amount_value_def dec_value_def int_of_char_def isdigit_def

text \<open>
  C6. An amount field (leading spaces skipped, ended by its comma) is accepted exactly when
  it is an optional minus sign, at least one dollar digit, a period and two cents
  digits; every other field is the amount error, so a sign alone, a sign followed by
  a period, one cents digit and three cents digits are errors. The amount of an
  accepted field is the sign times dollars plus cents over 100, and it is the amount of
  the journal entry when the line is accepted.
\<close>

theorem amount_field_syntax:
  "(jparse_state v = START_AMT \<and> \<not> sign_flag v \<and> CHR '','' \<notin> set fld \<and>
    (fld = [] \<or> hd fld \<noteq> CHR '' '') \<longrightarrow>
      journal_scan line year v idx (replicate n (CHR '' '') @ fld @ '','') =
        (if amount_syntax fld then
           Inr (v\<lparr>sign_flag := amount_negative fld, digit_ctr := 2,
                  dollars := real (dec_value (amount_dollars fld)),
                  cents := real (dec_value (amount_cents fld)),
                  jamt := (if amount_negative fld then - 1 else 1) *
                    (real (dec_value (amount_dollars fld)) +
                     real (dec_value (amount_cents fld)) / 100),
                  jparse_state := START_TYPE\<rparr>)
         else Inl (Journal_Error Invalid_Amount))) \<and>
   (amount_syntax fld \<longleftrightarrow>
      (\<exists>sgn dl c1 c2. fld = sgn @ dl @ ''.'' @ [c1, c2] \<and> (sgn = [] \<or> sgn = ''-'') \<and>
         dl \<noteq> [] \<and> list_all isdigit dl \<and> isdigit c1 \<and> isdigit c2)) \<and>
   (CHR '','' \<notin> set fdate \<and> CHR '','' \<notin> set fdescr \<and> CHR '','' \<notin> set fld \<and>
    (fld = [] \<or> hd fld \<noteq> CHR '' '') \<and>
    parse_journal_file_line
      (fdate @ '','' @ fdescr @ '','' @ replicate n (CHR '' '') @ fld @ '','' @ rest) year =
      Journal_Entry jd js ja jt jc \<longrightarrow>
      amount_syntax fld \<and>
      ja = (if amount_negative fld then - 1 else 1) *
        (real (dec_value (amount_dollars fld)) + real (dec_value (amount_cents fld)) / 100))"
proof (intro conjI impI)
  assume "jparse_state v = START_AMT \<and> \<not> sign_flag v \<and> CHR '','' \<notin> set fld \<and>
    (fld = [] \<or> hd fld \<noteq> CHR '' '')"
  then have "journal_scan line year v idx (replicate n (CHR '' '') @ fld @ '','') =
    (if amount_syntax fld then
       Inr (v\<lparr>sign_flag := amount_negative fld, digit_ctr := 2,
              dollars := real (dec_value (amount_dollars fld)),
              cents := real (dec_value (amount_cents fld)),
              jamt := amount_value fld, jparse_state := START_TYPE\<rparr>)
     else Inl (Journal_Error Invalid_Amount))"
    by (intro journal_scan_amount_field) simp_all
  then show "journal_scan line year v idx (replicate n (CHR '' '') @ fld @ '','') =
        (if amount_syntax fld then
           Inr (v\<lparr>sign_flag := amount_negative fld, digit_ctr := 2,
                  dollars := real (dec_value (amount_dollars fld)),
                  cents := real (dec_value (amount_cents fld)),
                  jamt := (if amount_negative fld then - 1 else 1) *
                    (real (dec_value (amount_dollars fld)) +
                     real (dec_value (amount_cents fld)) / 100),
                  jparse_state := START_TYPE\<rparr>)
         else Inl (Journal_Error Invalid_Amount))"
    by (simp only: amount_value_def)
next
  show "amount_syntax fld \<longleftrightarrow>
      (\<exists>sgn dl c1 c2. fld = sgn @ dl @ ''.'' @ [c1, c2] \<and> (sgn = [] \<or> sgn = ''-'') \<and>
         dl \<noteq> [] \<and> list_all isdigit dl \<and> isdigit c1 \<and> isdigit c2)"
    by (rule amount_syntax_iff)
next
  assume a: "CHR '','' \<notin> set fdate \<and> CHR '','' \<notin> set fdescr \<and> CHR '','' \<notin> set fld \<and>
    (fld = [] \<or> hd fld \<noteq> CHR '' '') \<and>
    parse_journal_file_line
      (fdate @ '','' @ fdescr @ '','' @ replicate n (CHR '' '') @ fld @ '','' @ rest) year =
      Journal_Entry jd js ja jt jc"
  have "fdate @ '','' @ fdescr @ '','' @ replicate n (CHR '' '') @ fld @ '','' @ rest =
      (fdate @ '','') @ (fdescr @ '','') @ (replicate n (CHR '' '') @ fld @ '','') @ rest"
    by simp
  with a have e: "parse_journal_file_line
      ((fdate @ '','') @ (fdescr @ '','') @ (replicate n (CHR '' '') @ fld @ '','') @ rest) year =
      Journal_Entry jd js ja jt jc"
    by (simp only:)
  from a have "amount_syntax fld \<and> ja = amount_value fld"
    by (intro parse_journal_entry_amount [OF _ _ _ _ e]) simp_all
  then show "amount_syntax fld"
    and "ja = (if amount_negative fld then - 1 else 1) *
        (real (dec_value (amount_dollars fld)) + real (dec_value (amount_cents fld)) / 100)"
    by (simp_all add: amount_value_def)
qed

theorem amount_field_syntax_witness:
  "amount_syntax ''292.03'' \<and>
   (\<exists>v'. journal_scan [] 2015 (journal_vars0\<lparr>jparse_state := START_AMT\<rparr>) 0 '' 292.03,'' =
      Inr v' \<and> jamt v' = 29203 / 100 \<and> jparse_state v' = START_TYPE) \<and>
   (\<exists>v'. journal_scan [] 2015 (journal_vars0\<lparr>jparse_state := START_AMT\<rparr>) 0 ''-0.25,'' =
      Inr v' \<and> jamt v' = - (1 / 4)) \<and>
   \<not> amount_syntax ''-'' \<and>
   journal_scan [] 2015 (journal_vars0\<lparr>jparse_state := START_AMT\<rparr>) 0 ''-,'' =
     Inl (Journal_Error Invalid_Amount) \<and>
   \<not> amount_syntax ''-.50'' \<and>
   journal_scan [] 2015 (journal_vars0\<lparr>jparse_state := START_AMT\<rparr>) 0 ''-.50,'' =
     Inl (Journal_Error Invalid_Amount) \<and>
   \<not> amount_syntax ''5.1'' \<and>
   journal_scan [] 2015 (journal_vars0\<lparr>jparse_state := START_AMT\<rparr>) 0 ''5.1,'' =
     Inl (Journal_Error Invalid_Amount) \<and>
   \<not> amount_syntax ''5.123'' \<and>
   journal_scan [] 2015 (journal_vars0\<lparr>jparse_state := START_AMT\<rparr>) 0 ''5.123,'' =
     Inl (Journal_Error Invalid_Amount) \<and>
   parse_journal_file_line
     ''3/9, Rappahannock Electric (Union chk), 292.03, xfr, 2.2.1\<newline>'' 2015 =
     Journal_Entry ''03/09/2015'' ''Rappahannock Electric (Union chk)'' (29203 / 100) ''xfr''
       ''2.2.1''"
proof -
  let ?v = "journal_vars0\<lparr>jparse_state := START_AMT\<rparr>"
  have v: "jparse_state ?v = START_AMT \<and> \<not> sign_flag ?v"
    by (simp add: journal_vars0_def)
  note t = amount_field_syntax [where v = ?v and line = "[]" and year = 2015 and idx = 0]
  have s1: "amount_syntax ''292.03''" and s2: "amount_syntax ''-0.25''"
    and n1: "\<not> amount_syntax ''-''" and n2: "\<not> amount_syntax ''-.50''"
    and n3: "\<not> amount_syntax ''5.1''" and n4: "\<not> amount_syntax ''5.123''"
    by (simp_all add: amount_eval)
  have a1: "\<exists>v'. journal_scan [] 2015 ?v 0 '' 292.03,'' = Inr v' \<and> jamt v' = 29203 / 100 \<and>
      jparse_state v' = START_TYPE"
    using t [where fld = "''292.03''" and n = 1] v s1
    by (simp add: amount_eval del: journal_scan.simps)
  have a2: "\<exists>v'. journal_scan [] 2015 ?v 0 ''-0.25,'' = Inr v' \<and> jamt v' = - (1 / 4)"
    using t [where fld = "''-0.25''" and n = 0] v s2
    by (simp add: amount_eval del: journal_scan.simps)
  have e1: "journal_scan [] 2015 ?v 0 ''-,'' = Inl (Journal_Error Invalid_Amount)"
    using t [where fld = "''-''" and n = 0] v n1 by (simp del: journal_scan.simps)
  have e2: "journal_scan [] 2015 ?v 0 ''-.50,'' = Inl (Journal_Error Invalid_Amount)"
    using t [where fld = "''-.50''" and n = 0] v n2 by (simp del: journal_scan.simps)
  have e3: "journal_scan [] 2015 ?v 0 ''5.1,'' = Inl (Journal_Error Invalid_Amount)"
    using t [where fld = "''5.1''" and n = 0] v n3 by (simp del: journal_scan.simps)
  have e4: "journal_scan [] 2015 ?v 0 ''5.123,'' = Inl (Journal_Error Invalid_Amount)"
    using t [where fld = "''5.123''" and n = 0] v n4 by (simp del: journal_scan.simps)
  have p: "parse_journal_file_line
     ''3/9, Rappahannock Electric (Union chk), 292.03, xfr, 2.2.1\<newline>'' 2015 =
     Journal_Entry ''03/09/2015'' ''Rappahannock Electric (Union chk)'' (29203 / 100) ''xfr''
       ''2.2.1''"
    by (simp add: parser_eval)
  have "CHR '','' \<notin> set ''3/9'' \<and> CHR '','' \<notin> set '' Rappahannock Electric (Union chk)'' \<and>
      CHR '','' \<notin> set ''292.03'' \<and> (''292.03'' = [] \<or> hd ''292.03'' \<noteq> CHR '' '')"
    by simp
  with p have w: "amount_syntax ''292.03''"
    using amount_field_syntax [where fdate = "''3/9''"
        and fdescr = "'' Rappahannock Electric (Union chk)''" and n = 1 and fld = "''292.03''"
        and rest = "'' xfr, 2.2.1\<newline>''" and year = 2015 and jd = "''03/09/2015''"
        and js = "''Rappahannock Electric (Union chk)''" and ja = "29203 / 100"
        and jt = "''xfr''" and jc = "''2.2.1''", THEN conjunct2, THEN conjunct2]
    by simp
  from w a1 a2 n1 e1 n2 e2 n3 e3 n4 e4 p show ?thesis by (intro conjI)
qed

section \<open>The category list, the journal list and the passes over them\<close>

text \<open>
  An object of class \<open>CatCode\<close>. The attributes \<open>descr\<close> and \<open>level\<close> are the fields
  \<open>cat_descr\<close> and \<open>cat_level\<close>; \<open>parent\<close> is \<open>None\<close> until the hierarchy pass sets it.
\<close>

record CatCode =
  cat_str :: string
  cat_descr :: string
  comment :: string
  cat_level :: nat
  line_nbr :: nat
  parent :: "nat option"
  children :: "nat list"
  total :: real
  nested_total :: real
  monthly :: "real list"
  nested_monthly :: "real list"
  journal :: "nat list"
  longest :: nat

definition CatCode_init :: "string \<Rightarrow> string \<Rightarrow> string \<Rightarrow> nat \<Rightarrow> nat \<Rightarrow> CatCode" where
  "CatCode_init code d cm lvl line_num =
     \<lparr>cat_str = code, cat_descr = d, comment = cm, cat_level = lvl, line_nbr = line_num,
      parent = None, children = [], total = 0, nested_total = 0,
      monthly = replicate 12 0, nested_monthly = replicate 12 0, journal = [], longest = 0\<rparr>"

text \<open>An object of class \<open>Journal\<close>.\<close>

record Journal =
  j_date :: string
  j_descr :: string
  j_amt :: real
  j_type :: string
  j_cat_code :: string
  j_cat_idx :: nat
  j_line_nbr :: nat

text \<open>The global variables of the program.\<close>

record globals =
  cat_list :: "CatCode list"
  cat_dict :: "string \<rightharpoonup> nat"
  journal_list :: "Journal list"

definition globals0 :: globals where
  "globals0 = \<lparr>cat_list = [], cat_dict = Map.empty, journal_list = []\<rparr>"

text \<open>
  How a run ends early: the messages after which the program calls \<open>sys.exit(1)\<close>, with
  the line number they cite, and the exceptions of Python that no handler catches.
\<close>

datatype run_error = Category_Line_Error cat_error nat | Duplicate_Category nat
  | Empty_Category_File | Missing_Parent string string | Journal_Line_Error journal_error nat
  | Undefined_Category nat | Empty_Journal_File | Py_TypeError | Py_IndexError | Py_ValueError

subsection \<open>Reading the category file\<close>

text \<open>The loop of \<open>read_and_parse_cat_file\<close> over the lines of the file.\<close>

fun cat_file_loop :: "globals \<Rightarrow> nat \<Rightarrow> nat \<Rightarrow> string list \<Rightarrow> run_error + globals" where
  "cat_file_loop g idx line_num [] = Inr g"
| "cat_file_loop g idx line_num (line # lines) =
    (case parse_cat_file_line line of
      Cat_Error e \<Rightarrow> Inl (Category_Line_Error e line_num)
    | Cat_Blank \<Rightarrow> cat_file_loop g idx (Suc line_num) lines
    | Cat_Entry code d cm lvl \<Rightarrow>
        if code = [] then cat_file_loop g idx (Suc line_num) lines
        else if code \<in> dom (cat_dict g) then Inl (Duplicate_Category line_num)
        else cat_file_loop
          (g\<lparr>cat_dict := (cat_dict g)(code \<mapsto> idx),
             cat_list := cat_list g @ [CatCode_init code d cm lvl line_num]\<rparr>)
          (Suc idx) (Suc line_num) lines)"

definition read_and_parse_cat_file :: "globals \<Rightarrow> string list \<Rightarrow> run_error + globals" where
  "read_and_parse_cat_file g lines =
    (case cat_file_loop g 0 1 lines of
      Inl e \<Rightarrow> Inl e
    | Inr g' \<Rightarrow> if length (cat_list g') = 0 then Inl Empty_Category_File else Inr g')"

subsection \<open>The hierarchy pass\<close>

text \<open>\<open>s.rfind(c)\<close>, which is \<open>-1\<close> when \<open>c\<close> is not in \<open>s\<close>, and the slice \<open>s[0:pos]\<close>.\<close>

fun rfind :: "char \<Rightarrow> string \<Rightarrow> int" where
  "rfind c [] = - 1"
| "rfind c (x # xs) =
    (if 0 \<le> rfind c xs then rfind c xs + 1 else if x = c then 0 else - 1)"

definition slice_to :: "string \<Rightarrow> int \<Rightarrow> string" where
  "slice_to s pos = (if 0 \<le> pos then take (nat pos) s else take (nat (int (length s) + pos)) s)"

text \<open>The body of the loop of \<open>prc_cat_file_hierarchy\<close> for one index.\<close>

definition hierarchy_step :: "globals \<Rightarrow> nat \<Rightarrow> run_error + globals" where
  "hierarchy_step g idx =
    (if cat_level (cat_list g ! idx) > 1 then
       (let full_code = cat_str (cat_list g ! idx);
            pos = rfind (CHR ''.'') full_code;
            parent_code = slice_to full_code pos
        in case cat_dict g parent_code of
             None \<Rightarrow> Inl (Missing_Parent parent_code full_code)
           | Some parent_idx \<Rightarrow>
               if parent_idx < length (cat_list g) then
                 (let cl1 = (cat_list g)[parent_idx :=
                        (cat_list g ! parent_idx)
                          \<lparr>children := children (cat_list g ! parent_idx) @ [idx]\<rparr>];
                      cl2 = cl1[idx := (cl1 ! idx)\<lparr>parent := Some parent_idx\<rparr>]
                  in Inr (g\<lparr>cat_list := cl2\<rparr>))
               else Inl Py_IndexError)
     else Inr g)"

fun hierarchy_loop :: "globals \<Rightarrow> nat list \<Rightarrow> run_error + globals" where
  "hierarchy_loop g [] = Inr g"
| "hierarchy_loop g (idx # rest) =
    (case hierarchy_step g idx of
      Inl e \<Rightarrow> Inl e
    | Inr g' \<Rightarrow> hierarchy_loop g' rest)"

definition prc_cat_file_hierarchy :: "globals \<Rightarrow> run_error + globals" where
  "prc_cat_file_hierarchy g = hierarchy_loop g [0..<length (cat_list g)]"

subsection \<open>Reading the journal file\<close>

text \<open>
  \<open>int(s)\<close> on a string of decimal digits (the first two characters of a date that the
  parser has formatted); any other string is a \<open>ValueError\<close> in the model. An index into
  a list of length \<open>n\<close>, where Python counts a negative index from the end.
\<close>

definition py_int :: "string \<Rightarrow> nat option" where
  "py_int s = (if s \<noteq> [] \<and> list_all isdigit s then Some (dec_value s) else None)"

definition py_index :: "nat \<Rightarrow> int \<Rightarrow> nat option" where
  "py_index n i =
    (if 0 \<le> i \<and> i < int n then Some (nat i)
     else if - int n \<le> i \<and> i < 0 then Some (nat (int n + i))
     else None)"

text \<open>What the loop of \<open>read_and_parse_journal_file\<close> does with one transaction.\<close>

definition post_transaction ::
  "globals \<Rightarrow> nat \<Rightarrow> nat \<Rightarrow> string \<Rightarrow> string \<Rightarrow> real \<Rightarrow> string \<Rightarrow> string \<Rightarrow>
     run_error + globals" where
  "post_transaction g idx line_num dt d amt ty code =
    (case cat_dict g code of
      None \<Rightarrow> Inl (Undefined_Category line_num)
    | Some cat_idx \<Rightarrow>
        if cat_idx < length (cat_list g) then
          (case py_int (take 2 dt) of
            None \<Rightarrow> Inl Py_ValueError
          | Some mm \<Rightarrow>
              (case py_index (length (monthly (cat_list g ! cat_idx))) (int mm - 1) of
                None \<Rightarrow> Inl Py_IndexError
              | Some mon_idx \<Rightarrow>
                  (let journal_obj = \<lparr>j_date = dt, j_descr = d, j_amt = amt, j_type = ty,
                         j_cat_code = code, j_cat_idx = cat_idx, j_line_nbr = line_num\<rparr>;
                       c = cat_list g ! cat_idx;
                       c1 = c\<lparr>journal := journal c @ [idx]\<rparr>;
                       c2 = c1\<lparr>total := total c1 + amt\<rparr>;
                       c3 = c2\<lparr>monthly := (monthly c2)[mon_idx := monthly c2 ! mon_idx + amt]\<rparr>;
                       c4 = (if length d > longest c3 then c3\<lparr>longest := length d\<rparr> else c3)
                   in Inr (g\<lparr>journal_list := journal_list g @ [journal_obj],
                             cat_list := (cat_list g)[cat_idx := c4]\<rparr>))))
        else Inl Py_IndexError)"

fun journal_file_loop ::
  "globals \<Rightarrow> nat \<Rightarrow> nat \<Rightarrow> nat \<Rightarrow> string list \<Rightarrow> run_error + globals" where
  "journal_file_loop g journal_year idx line_num [] = Inr g"
| "journal_file_loop g journal_year idx line_num (line # lines) =
    (case parse_journal_file_line line journal_year of
      Journal_Error e \<Rightarrow> Inl (Journal_Line_Error e line_num)
    | Journal_Blank \<Rightarrow> journal_file_loop g journal_year idx (Suc line_num) lines
    | Journal_Entry dt d amt ty code \<Rightarrow>
        if code = [] then journal_file_loop g journal_year idx (Suc line_num) lines
        else (case post_transaction g idx line_num dt d amt ty code of
               Inl e \<Rightarrow> Inl e
             | Inr g' \<Rightarrow> journal_file_loop g' journal_year (Suc idx) (Suc line_num) lines))"

definition read_and_parse_journal_file ::
  "globals \<Rightarrow> string list \<Rightarrow> nat \<Rightarrow> run_error + globals" where
  "read_and_parse_journal_file g lines journal_year =
    (case journal_file_loop g journal_year 0 1 lines of
      Inl e \<Rightarrow> Inl e
    | Inr g' \<Rightarrow> if length (journal_list g') = 0 then Inl Empty_Journal_File else Inr g')"

subsection \<open>Folding the totals of the children into their parents\<close>

text \<open>
  The loops at the head of \<open>generate_cashflow_report\<close>; what follows them there prints the
  report and is not part of the model. First the loop over the twelve months for one
  pair of child and parent.
\<close>

fun month_loop :: "CatCode list \<Rightarrow> nat \<Rightarrow> nat \<Rightarrow> nat list \<Rightarrow> run_error + CatCode list" where
  "month_loop cl cidx pidx [] = Inr cl"
| "month_loop cl cidx pidx (mon_idx # rest) =
    (if mon_idx < length (nested_monthly (cl ! pidx)) \<and> mon_idx < length (monthly (cl ! cidx)) \<and>
        mon_idx < length (nested_monthly (cl ! cidx)) then
       month_loop
         (cl[pidx := (cl ! pidx)\<lparr>nested_monthly := (nested_monthly (cl ! pidx))[mon_idx :=
            nested_monthly (cl ! pidx) ! mon_idx +
              (monthly (cl ! cidx) ! mon_idx + nested_monthly (cl ! cidx) ! mon_idx)]\<rparr>])
         cidx pidx rest
     else Inl Py_IndexError)"

definition fold_child :: "CatCode list \<Rightarrow> nat \<Rightarrow> run_error + CatCode list" where
  "fold_child cl cidx =
    (case parent (cl ! cidx) of
      None \<Rightarrow> Inl Py_TypeError
    | Some pidx \<Rightarrow>
        if pidx < length cl then
          month_loop
            (cl[pidx := (cl ! pidx)\<lparr>nested_total := nested_total (cl ! pidx) +
               (total (cl ! cidx) + nested_total (cl ! cidx))\<rparr>])
            cidx pidx [0..<12]
        else Inl Py_IndexError)"

fun level_loop :: "nat \<Rightarrow> CatCode list \<Rightarrow> nat list \<Rightarrow> run_error + CatCode list" where
  "level_loop lvl cl [] = Inr cl"
| "level_loop lvl cl (cidx # rest) =
    (if cat_level (cl ! cidx) = lvl then
       (case fold_child cl cidx of
         Inl e \<Rightarrow> Inl e
       | Inr cl' \<Rightarrow> level_loop lvl cl' rest)
     else level_loop lvl cl rest)"

fun levels_loop :: "CatCode list \<Rightarrow> nat list \<Rightarrow> run_error + CatCode list" where
  "levels_loop cl [] = Inr cl"
| "levels_loop cl (lvl # rest) =
    (case level_loop lvl cl [0..<length cl] of
      Inl e \<Rightarrow> Inl e
    | Inr cl' \<Rightarrow> levels_loop cl' rest)"

definition fold_nested_totals :: "globals \<Rightarrow> run_error + globals" where
  "fold_nested_totals g =
    (case levels_loop (cat_list g) [4, 3, 2] of
      Inl e \<Rightarrow> Inl e
    | Inr cl \<Rightarrow> Inr (g\<lparr>cat_list := cl\<rparr>))"

subsection \<open>The whole run\<close>

text \<open>\<open>main\<close>, from the lines of the two files and the journal year to the category list
  with all its totals.\<close>

definition main :: "string list \<Rightarrow> string list \<Rightarrow> nat \<Rightarrow> run_error + globals" where
  "main cat_lines journal_lines journal_year =
    (case read_and_parse_cat_file globals0 cat_lines of
      Inl e \<Rightarrow> Inl e
    | Inr g1 \<Rightarrow>
        (case prc_cat_file_hierarchy g1 of
          Inl e \<Rightarrow> Inl e
        | Inr g2 \<Rightarrow>
            (case read_and_parse_journal_file g2 journal_lines journal_year of
              Inl e \<Rightarrow> Inl e
            | Inr g3 \<Rightarrow> fold_nested_totals g3)))"

section \<open>Which fields each pass writes\<close>

lemma nth_list_update_any:
  "cl[p := x] ! i = (if i = p \<and> p < length cl then x else cl ! i)"
  by (cases "p < length cl") (auto simp: nth_list_update list_update_beyond not_less)

lemma month_loop_frame:
  "month_loop cl cidx pidx ms = Inr cl' \<Longrightarrow>
     length cl' = length cl \<and>
     (\<forall>i. total (cl' ! i) = total (cl ! i) \<and> monthly (cl' ! i) = monthly (cl ! i) \<and>
          nested_total (cl' ! i) = nested_total (cl ! i) \<and>
          cat_level (cl' ! i) = cat_level (cl ! i) \<and> parent (cl' ! i) = parent (cl ! i) \<and>
          cat_str (cl' ! i) = cat_str (cl ! i))"
proof (induction ms arbitrary: cl)
  case Nil
  then show ?case by simp
next
  case (Cons m ms)
  let ?cl1 = "cl[pidx := (cl ! pidx)\<lparr>nested_monthly := (nested_monthly (cl ! pidx))[m :=
            nested_monthly (cl ! pidx) ! m +
              (monthly (cl ! cidx) ! m + nested_monthly (cl ! cidx) ! m)]\<rparr>]"
  from Cons.prems have "month_loop ?cl1 cidx pidx ms = Inr cl'"
    by (simp split: if_splits)
  from Cons.IH [OF this] show ?case
    by (simp add: nth_list_update_any)
qed

lemma fold_child_frame:
  assumes "fold_child cl cidx = Inr cl'"
  shows "length cl' = length cl \<and>
     (\<forall>i. total (cl' ! i) = total (cl ! i) \<and> monthly (cl' ! i) = monthly (cl ! i) \<and>
          cat_level (cl' ! i) = cat_level (cl ! i) \<and> parent (cl' ! i) = parent (cl ! i) \<and>
          cat_str (cl' ! i) = cat_str (cl ! i))"
proof -
  from assms obtain pidx where p: "parent (cl ! cidx) = Some pidx" "pidx < length cl"
    and m: "month_loop
            (cl[pidx := (cl ! pidx)\<lparr>nested_total := nested_total (cl ! pidx) +
               (total (cl ! cidx) + nested_total (cl ! cidx))\<rparr>])
            cidx pidx [0..<12] = Inr cl'"
    by (auto simp: fold_child_def split: option.splits if_splits)
  from month_loop_frame [OF m] p(2) show ?thesis
    by (simp add: nth_list_update_any)
qed

lemma level_loop_frame:
  "level_loop lvl cl is = Inr cl' \<Longrightarrow>
     length cl' = length cl \<and>
     (\<forall>i. total (cl' ! i) = total (cl ! i) \<and> monthly (cl' ! i) = monthly (cl ! i) \<and>
          cat_level (cl' ! i) = cat_level (cl ! i) \<and> parent (cl' ! i) = parent (cl ! i) \<and>
          cat_str (cl' ! i) = cat_str (cl ! i))"
proof (induction "is" arbitrary: cl)
  case Nil
  then show ?case by simp
next
  case (Cons c "is")
  show ?case
  proof (cases "cat_level (cl ! c) = lvl")
    case False
    with Cons show ?thesis by simp
  next
    case True
    with Cons.prems obtain cl1 where 1: "fold_child cl c = Inr cl1"
      and 2: "level_loop lvl cl1 is = Inr cl'"
      by (auto split: sum.splits)
    from fold_child_frame [OF 1] Cons.IH [OF 2] show ?thesis by simp
  qed
qed

lemma levels_loop_frame:
  "levels_loop cl lvls = Inr cl' \<Longrightarrow>
     length cl' = length cl \<and>
     (\<forall>i. total (cl' ! i) = total (cl ! i) \<and> monthly (cl' ! i) = monthly (cl ! i) \<and>
          cat_level (cl' ! i) = cat_level (cl ! i) \<and> parent (cl' ! i) = parent (cl ! i) \<and>
          cat_str (cl' ! i) = cat_str (cl ! i))"
proof (induction lvls arbitrary: cl)
  case Nil
  then show ?case by simp
next
  case (Cons lvl lvls)
  from Cons.prems obtain cl1 where 1: "level_loop lvl cl [0..<length cl] = Inr cl1"
    and 2: "levels_loop cl1 lvls = Inr cl'"
    by (auto split: sum.splits)
  from level_loop_frame [OF 1] Cons.IH [OF 2] show ?case by simp
qed

lemma fold_nested_totals_frame:
  assumes "fold_nested_totals g = Inr g'"
  shows "length (cat_list g') = length (cat_list g) \<and>
     (\<forall>i. total (cat_list g' ! i) = total (cat_list g ! i) \<and>
          monthly (cat_list g' ! i) = monthly (cat_list g ! i) \<and>
          cat_level (cat_list g' ! i) = cat_level (cat_list g ! i) \<and>
          parent (cat_list g' ! i) = parent (cat_list g ! i) \<and>
          cat_str (cat_list g' ! i) = cat_str (cat_list g ! i))"
proof -
  from assms obtain cl where 1: "levels_loop (cat_list g) [4, 3, 2] = Inr cl"
    and 2: "g' = g\<lparr>cat_list := cl\<rparr>"
    by (auto simp: fold_nested_totals_def split: sum.splits)
  from levels_loop_frame [OF 1] 2 show ?thesis by simp
qed

lemma post_transaction_frame:
  assumes "post_transaction g idx lnum dt d amt ty code = Inr g'"
  shows "length (cat_list g') = length (cat_list g) \<and> cat_dict g' = cat_dict g \<and>
     (\<forall>i. nested_total (cat_list g' ! i) = nested_total (cat_list g ! i) \<and>
          nested_monthly (cat_list g' ! i) = nested_monthly (cat_list g ! i) \<and>
          cat_level (cat_list g' ! i) = cat_level (cat_list g ! i) \<and>
          parent (cat_list g' ! i) = parent (cat_list g ! i) \<and>
          cat_str (cat_list g' ! i) = cat_str (cat_list g ! i) \<and>
          length (monthly (cat_list g' ! i)) = length (monthly (cat_list g ! i)))"
  using assms
  by (auto simp: post_transaction_def Let_def nth_list_update_any
      split: option.splits if_splits)

lemma journal_file_loop_frame:
  "journal_file_loop g y idx lnum lines = Inr g' \<Longrightarrow>
     length (cat_list g') = length (cat_list g) \<and> cat_dict g' = cat_dict g \<and>
     (\<forall>i. nested_total (cat_list g' ! i) = nested_total (cat_list g ! i) \<and>
          nested_monthly (cat_list g' ! i) = nested_monthly (cat_list g ! i) \<and>
          cat_level (cat_list g' ! i) = cat_level (cat_list g ! i) \<and>
          parent (cat_list g' ! i) = parent (cat_list g ! i) \<and>
          cat_str (cat_list g' ! i) = cat_str (cat_list g ! i) \<and>
          length (monthly (cat_list g' ! i)) = length (monthly (cat_list g ! i)))"
proof (induction lines arbitrary: g idx lnum)
  case Nil
  then show ?case by simp
next
  case (Cons line lines)
  show ?case
  proof (cases "parse_journal_file_line line y")
    case (Journal_Error e)
    with Cons.prems show ?thesis by simp
  next
    case Journal_Blank
    with Cons show ?thesis by simp
  next
    case (Journal_Entry dt d amt ty code)
    show ?thesis
    proof (cases "code = []")
      case True
      with Journal_Entry Cons show ?thesis by simp
    next
      case False
      with Journal_Entry Cons.prems obtain g1 where
        1: "post_transaction g idx lnum dt d amt ty code = Inr g1"
        and 2: "journal_file_loop g1 y (Suc idx) (Suc lnum) lines = Inr g'"
        by (auto split: sum.splits)
      from post_transaction_frame [OF 1] Cons.IH [OF 2] show ?thesis by simp
    qed
  qed
qed

lemma read_and_parse_journal_file_frame:
  assumes "read_and_parse_journal_file g lines y = Inr g'"
  shows "length (cat_list g') = length (cat_list g) \<and> cat_dict g' = cat_dict g \<and>
     (\<forall>i. nested_total (cat_list g' ! i) = nested_total (cat_list g ! i) \<and>
          nested_monthly (cat_list g' ! i) = nested_monthly (cat_list g ! i) \<and>
          cat_level (cat_list g' ! i) = cat_level (cat_list g ! i) \<and>
          parent (cat_list g' ! i) = parent (cat_list g ! i) \<and>
          cat_str (cat_list g' ! i) = cat_str (cat_list g ! i) \<and>
          length (monthly (cat_list g' ! i)) = length (monthly (cat_list g ! i)))"
proof -
  from assms have "journal_file_loop g y 0 1 lines = Inr g'"
    by (auto simp: read_and_parse_journal_file_def split: sum.splits if_splits)
  then show ?thesis by (rule journal_file_loop_frame)
qed

section \<open>The category tree\<close>

text \<open>
  A node \<open>i\<close> is a strict descendant of a node \<open>k\<close> when \<open>k\<close> is the parent of \<open>i\<close>, or
  the parent of a node of which \<open>i\<close> is a strict descendant.
\<close>

inductive strict_descendant :: "CatCode list \<Rightarrow> nat \<Rightarrow> nat \<Rightarrow> bool" for cl where
  child: "i < length cl \<Longrightarrow> parent (cl ! i) = Some k \<Longrightarrow> strict_descendant cl k i"
| deeper: "strict_descendant cl c i \<Longrightarrow> c < length cl \<Longrightarrow> parent (cl ! c) = Some k \<Longrightarrow>
     strict_descendant cl k i"

text \<open>
  What the hierarchy pass leaves: a node of level 1 has no parent, and the parent of a
  deeper node is a node of the list one level higher. Every list of monthly figures has
  twelve entries.
\<close>

definition tree_ok :: "CatCode list \<Rightarrow> bool" where
  "tree_ok cl =
    (\<forall>i < length cl.
       cat_level (cl ! i) = 1 \<and> parent (cl ! i) = None \<or>
       2 \<le> cat_level (cl ! i) \<and> cat_level (cl ! i) \<le> 4 \<and>
       (\<exists>p < length cl. parent (cl ! i) = Some p \<and> cat_level (cl ! p) + 1 = cat_level (cl ! i)))"

definition months_ok :: "CatCode list \<Rightarrow> bool" where
  "months_ok cl =
    (\<forall>i < length cl. length (monthly (cl ! i)) = 12 \<and> length (nested_monthly (cl ! i)) = 12)"

lemma sum_if_less:
  "(\<Sum>i < (n::nat). if P i then f i else (0::real)) = sum f {i. i < n \<and> P i}"
proof -
  have "sum f {i \<in> {..<n}. P i} = (\<Sum>i < n. if P i then f i else 0)"
    by (rule sum.inter_filter) simp
  moreover have "{i \<in> {..<n}. P i} = {i. i < n \<and> P i}"
    by auto
  ultimately show ?thesis by simp
qed

lemma tree_ok_parent:
  assumes "tree_ok cl" and "i < length cl" and "parent (cl ! i) = Some p"
  shows "p < length cl \<and> cat_level (cl ! p) + 1 = cat_level (cl ! i) \<and> cat_level (cl ! i) \<le> 4"
  using assms unfolding tree_ok_def by fastforce

lemma tree_ok_level: "tree_ok cl \<Longrightarrow> i < length cl \<Longrightarrow> 1 \<le> cat_level (cl ! i) \<and> cat_level (cl ! i) \<le> 4"
  unfolding tree_ok_def by fastforce

lemma strict_descendant_less: "strict_descendant cl k i \<Longrightarrow> i < length cl"
  by (induction rule: strict_descendant.induct) auto

lemma strict_descendant_level:
  assumes "tree_ok cl" and "strict_descendant cl k i"
  shows "k < length cl \<and> cat_level (cl ! k) < cat_level (cl ! i)"
  using assms(2)
proof (induction rule: strict_descendant.induct)
  case (child i k)
  with tree_ok_parent [OF assms(1)] show ?case by fastforce
next
  case (deeper c i k)
  with tree_ok_parent [OF assms(1), of c k] show ?case by simp
qed

lemma strict_descendant_unique:
  assumes t: "tree_ok cl"
    and "strict_descendant cl c i" and "strict_descendant cl c' i"
    and "cat_level (cl ! c) = cat_level (cl ! c')"
  shows "c = c'"
  using assms(2-)
proof (induction arbitrary: c' rule: strict_descendant.induct)
  case (child i k)
  from child.prems(1) show ?case
  proof (cases rule: strict_descendant.cases)
    case child
    with child.hyps show ?thesis by simp
  next
    case (deeper c0)
    from strict_descendant_level [OF t deeper(1)] tree_ok_parent [OF t deeper(2,3)]
      tree_ok_parent [OF t child.hyps] child.prems(2)
    show ?thesis by simp
  qed
next
  case (deeper c0 i k)
  from deeper.prems(1) show ?case
  proof (cases rule: strict_descendant.cases)
    case child
    from strict_descendant_level [OF t deeper.hyps(1)] tree_ok_parent [OF t deeper.hyps(2,3)]
      tree_ok_parent [OF t child] deeper.prems(2)
    show ?thesis by simp
  next
    case (deeper c1)
    from tree_ok_parent [OF t deeper(2,3)] tree_ok_parent [OF t \<open>c0 < length cl\<close>
        \<open>parent (cl ! c0) = Some k\<close>] \<open>cat_level (cl ! k) = cat_level (cl ! c')\<close>
    have "cat_level (cl ! c0) = cat_level (cl ! c1)" by simp
    with deeper(1) have "c0 = c1" by (intro deeper.IH)
    with deeper(3) \<open>parent (cl ! c0) = Some k\<close> show ?thesis by simp
  qed
qed

text \<open>
  Among the nodes below \<open>k\<close>, a node is a child of \<open>k\<close> or lies below exactly one child
  of \<open>k\<close>.
\<close>

lemma descendant_indicator:
  assumes t: "tree_ok cl"
  shows "(if strict_descendant cl k i then x else 0) =
     (if i < length cl \<and> parent (cl ! i) = Some k then x else 0) +
     (\<Sum>c < length cl. if parent (cl ! c) = Some k \<and> strict_descendant cl c i then x else (0::real))"
proof -
  let ?n = "length cl"
  let ?C = "{c. c < ?n \<and> parent (cl ! c) = Some k \<and> strict_descendant cl c i}"
  have sum: "(\<Sum>c < ?n. if parent (cl ! c) = Some k \<and> strict_descendant cl c i then x else 0) =
      real (card ?C) * x"
  proof -
    have "(\<Sum>c < ?n. if parent (cl ! c) = Some k \<and> strict_descendant cl c i then x else 0) =
        (\<Sum>c \<in> ?C. x)"
      by (rule sum_if_less)
    then show ?thesis by simp
  qed
  have le1: "card ?C \<le> 1"
  proof (rule card_le_Suc0_iff_eq [THEN iffD2, unfolded One_nat_def [symmetric]])
    show "finite ?C" by simp
    show "\<forall>a \<in> ?C. \<forall>b \<in> ?C. a = b"
    proof (intro ballI)
      fix a b assume "a \<in> ?C" "b \<in> ?C"
      then have "strict_descendant cl a i" "strict_descendant cl b i"
        "cat_level (cl ! a) = cat_level (cl ! b)"
        using tree_ok_parent [OF t, of a k] tree_ok_parent [OF t, of b k] by auto
      then show "a = b" by (rule strict_descendant_unique [OF t])
    qed
  qed
  show ?thesis
  proof (cases "i < ?n \<and> parent (cl ! i) = Some k")
    case True
    then have d: "strict_descendant cl k i" by (auto intro: strict_descendant.child)
    have "?C = {}"
    proof (rule ccontr)
      assume "?C \<noteq> {}"
      then obtain c where c: "c < ?n" "parent (cl ! c) = Some k" "strict_descendant cl c i"
        by auto
      from strict_descendant_level [OF t c(3)] tree_ok_parent [OF t c(1,2)]
        tree_ok_parent [OF t, of i k] True
      show False by simp
    qed
    with True d sum show ?thesis by simp
  next
    case False
    show ?thesis
    proof (cases "strict_descendant cl k i")
      case True
      then obtain c where "strict_descendant cl c i" "c < ?n" "parent (cl ! c) = Some k"
        using False by (cases rule: strict_descendant.cases) auto
      then have "c \<in> ?C" by simp
      then have "?C \<noteq> {}" by blast
      moreover have "finite ?C" by simp
      ultimately have "0 < card ?C" by (simp only: card_gt_0_iff) simp
      with le1 have "card ?C = 1" by linarith
      with True False sum show ?thesis by auto
    next
      case nd: False
      have "?C = {}"
        using nd by (auto intro: strict_descendant.deeper)
      with nd False sum show ?thesis by auto
    qed
  qed
qed

text \<open>The sum of a figure over the strict descendants of \<open>k\<close>.\<close>

definition descendant_sum :: "CatCode list \<Rightarrow> (nat \<Rightarrow> real) \<Rightarrow> nat \<Rightarrow> real" where
  "descendant_sum cl f k = (\<Sum>i | i < length cl \<and> strict_descendant cl k i. f i)"

lemma descendant_sum_indicator:
  "descendant_sum cl f k = (\<Sum>i < length cl. if strict_descendant cl k i then f i else 0)"
proof -
  show ?thesis
    unfolding descendant_sum_def by (rule sum_if_less [symmetric])
qed

lemma descendant_sum_children:
  assumes t: "tree_ok cl"
  shows "(\<Sum>c < length cl. if parent (cl ! c) = Some k then f c + descendant_sum cl f c else 0) =
     descendant_sum cl f k"
proof -
  let ?n = "length cl"
  have "descendant_sum cl f k =
      (\<Sum>i < ?n. (if i < ?n \<and> parent (cl ! i) = Some k then f i else 0) +
         (\<Sum>c < ?n. if parent (cl ! c) = Some k \<and> strict_descendant cl c i then f i else 0))"
    unfolding descendant_sum_indicator
    by (rule sum.cong [OF refl]) (rule descendant_indicator [OF t])
  also have "\<dots> = (\<Sum>i < ?n. if parent (cl ! i) = Some k then f i else 0) +
      (\<Sum>i < ?n. \<Sum>c < ?n. if parent (cl ! c) = Some k \<and> strict_descendant cl c i then f i else 0)"
    by (simp add: sum.distrib)
  also have "(\<Sum>i < ?n. \<Sum>c < ?n.
        if parent (cl ! c) = Some k \<and> strict_descendant cl c i then f i else 0) =
      (\<Sum>c < ?n. \<Sum>i < ?n.
        if parent (cl ! c) = Some k \<and> strict_descendant cl c i then f i else 0)"
    by (rule sum.swap)
  also have "\<dots> = (\<Sum>c < ?n. if parent (cl ! c) = Some k then descendant_sum cl f c else 0)"
    unfolding descendant_sum_indicator
    by (rule sum.cong [OF refl]) simp
  finally show ?thesis
    by (simp add: sum.distrib [symmetric] if_distrib [of "\<lambda>x. x + _"] cong: if_cong)
qed

lemma descendant_sum_deepest:
  assumes "tree_ok cl" and "k < length cl" and "cat_level (cl ! k) = 4"
  shows "descendant_sum cl f k = 0"
proof -
  have "\<not> strict_descendant cl k i" for i
  proof
    assume d: "strict_descendant cl k i"
    from strict_descendant_level [OF assms(1) d] strict_descendant_less [OF d]
      tree_ok_level [OF assms(1), of i] assms(3)
    show False by simp
  qed
  then show ?thesis by (simp add: descendant_sum_def)
qed

section \<open>One pass of the fold\<close>

text \<open>
  The thirteen figures of a node, counted from 0: the year-to-date figure, then the
  twelve months. \<open>direct_part\<close> reads the figures of the node's own transactions,
  \<open>nested_part\<close> the nested ones.
\<close>

fun direct_part :: "CatCode \<Rightarrow> nat \<Rightarrow> real" where
  "direct_part c 0 = total c"
| "direct_part c (Suc m) = monthly c ! m"

fun nested_part :: "CatCode \<Rightarrow> nat \<Rightarrow> real" where
  "nested_part c 0 = nested_total c"
| "nested_part c (Suc m) = nested_monthly c ! m"

lemma direct_part_cong:
  "total c = total c' \<Longrightarrow> monthly c = monthly c' \<Longrightarrow> direct_part c j = direct_part c' j"
  by (cases j) simp_all

lemma month_loop_result:
  assumes "p < length cl" and "c < length cl" and "p \<noteq> c"
    and "length (nested_monthly (cl ! p)) = 12" and "length (monthly (cl ! c)) = 12"
    and "length (nested_monthly (cl ! c)) = 12"
    and "\<forall>m \<in> set ms. m < 12" and "distinct ms"
  shows "\<exists>cl'. month_loop cl c p ms = Inr cl' \<and> length cl' = length cl \<and>
     (\<forall>k. k \<noteq> p \<longrightarrow> cl' ! k = cl ! k) \<and>
     nested_total (cl' ! p) = nested_total (cl ! p) \<and>
     length (nested_monthly (cl' ! p)) = 12 \<and>
     (\<forall>m < 12. nested_monthly (cl' ! p) ! m = nested_monthly (cl ! p) ! m +
        (if m \<in> set ms then monthly (cl ! c) ! m + nested_monthly (cl ! c) ! m else 0))"
  using assms
proof (induction ms arbitrary: cl)
  case Nil
  then show ?case by simp
next
  case (Cons m ms)
  let ?x = "nested_monthly (cl ! p) ! m + (monthly (cl ! c) ! m + nested_monthly (cl ! c) ! m)"
  let ?cl1 = "cl[p := (cl ! p)\<lparr>nested_monthly := (nested_monthly (cl ! p))[m := ?x]\<rparr>]"
  from Cons.prems have m: "m < 12" "m \<notin> set ms" by auto
  have 1: "?cl1 ! c = cl ! c" "length ?cl1 = length cl"
    "?cl1 ! p = (cl ! p)\<lparr>nested_monthly := (nested_monthly (cl ! p))[m := ?x]\<rparr>"
    using Cons.prems(1-3) by simp_all
  have "\<exists>cl'. month_loop ?cl1 c p ms = Inr cl' \<and> length cl' = length ?cl1 \<and>
     (\<forall>k. k \<noteq> p \<longrightarrow> cl' ! k = ?cl1 ! k) \<and>
     nested_total (cl' ! p) = nested_total (?cl1 ! p) \<and>
     length (nested_monthly (cl' ! p)) = 12 \<and>
     (\<forall>m < 12. nested_monthly (cl' ! p) ! m = nested_monthly (?cl1 ! p) ! m +
        (if m \<in> set ms then monthly (?cl1 ! c) ! m + nested_monthly (?cl1 ! c) ! m else 0))"
    using Cons.prems by (intro Cons.IH) (simp_all add: 1)
  then obtain cl' where r: "month_loop ?cl1 c p ms = Inr cl'" "length cl' = length cl"
    "\<forall>k. k \<noteq> p \<longrightarrow> cl' ! k = cl ! k"
    "nested_total (cl' ! p) = nested_total (cl ! p)"
    "length (nested_monthly (cl' ! p)) = 12"
    "\<forall>m' < 12. nested_monthly (cl' ! p) ! m' = (nested_monthly (cl ! p))[m := ?x] ! m' +
        (if m' \<in> set ms then monthly (cl ! c) ! m' + nested_monthly (cl ! c) ! m' else 0)"
    using Cons.prems(1-3) by (auto simp: 1)
  have "month_loop cl c p (m # ms) = Inr cl'"
    using r(1) m(1) Cons.prems(4-6) by simp
  moreover have "\<forall>m' < 12. nested_monthly (cl' ! p) ! m' = nested_monthly (cl ! p) ! m' +
        (if m' \<in> set (m # ms) then monthly (cl ! c) ! m' + nested_monthly (cl ! c) ! m' else 0)"
    using r(6) m Cons.prems(4) by (auto simp: nth_list_update)
  ultimately show ?case using r(2-5) by blast
qed

lemma fold_child_result:
  assumes c: "c < length cl" and par: "parent (cl ! c) = Some p" and p: "p < length cl" "p \<noteq> c"
    and mo: "months_ok cl"
  shows "\<exists>cl'. fold_child cl c = Inr cl' \<and> months_ok cl' \<and>
     (\<forall>k < length cl. \<forall>j \<le> 12. nested_part (cl' ! k) j =
        nested_part (cl ! k) j +
          (if k = p then direct_part (cl ! c) j + nested_part (cl ! c) j else 0))"
proof -
  let ?cl1 = "cl[p := (cl ! p)\<lparr>nested_total := nested_total (cl ! p) +
               (total (cl ! c) + nested_total (cl ! c))\<rparr>]"
  have 1: "?cl1 ! c = cl ! c" "length ?cl1 = length cl"
    "?cl1 ! p = (cl ! p)\<lparr>nested_total := nested_total (cl ! p) +
               (total (cl ! c) + nested_total (cl ! c))\<rparr>"
    using c p by simp_all
  from mo c p have len: "length (nested_monthly (cl ! p)) = 12" "length (monthly (cl ! c)) = 12"
    "length (nested_monthly (cl ! c)) = 12"
    by (simp_all add: months_ok_def)
  have "\<exists>cl'. month_loop ?cl1 c p [0..<12] = Inr cl' \<and> length cl' = length ?cl1 \<and>
     (\<forall>k. k \<noteq> p \<longrightarrow> cl' ! k = ?cl1 ! k) \<and>
     nested_total (cl' ! p) = nested_total (?cl1 ! p) \<and>
     length (nested_monthly (cl' ! p)) = 12 \<and>
     (\<forall>m < 12. nested_monthly (cl' ! p) ! m = nested_monthly (?cl1 ! p) ! m +
        (if m \<in> set [0..<12] then monthly (?cl1 ! c) ! m + nested_monthly (?cl1 ! c) ! m
         else 0))"
    using c p len by (intro month_loop_result) (simp_all add: 1)
  then obtain cl' where r: "month_loop ?cl1 c p [0..<12] = Inr cl'" "length cl' = length cl"
    "\<forall>k. k \<noteq> p \<longrightarrow> cl' ! k = cl ! k"
    "nested_total (cl' ! p) = nested_total (cl ! p) + (total (cl ! c) + nested_total (cl ! c))"
    "length (nested_monthly (cl' ! p)) = 12"
    "\<forall>m < 12. nested_monthly (cl' ! p) ! m = nested_monthly (cl ! p) ! m +
        (monthly (cl ! c) ! m + nested_monthly (cl ! c) ! m)"
    using c p by (auto simp: 1)
  have f: "fold_child cl c = Inr cl'"
    using par p(1) r(1) by (simp add: fold_child_def)
  have mo': "months_ok cl'"
    unfolding months_ok_def
  proof (intro allI impI)
    fix i assume i: "i < length cl'"
    from fold_child_frame [OF f] have "monthly (cl' ! i) = monthly (cl ! i)" by simp
    moreover have "length (nested_monthly (cl' ! i)) = 12"
      using r(3,5) mo i r(2) by (cases "i = p") (simp_all add: months_ok_def)
    ultimately show "length (monthly (cl' ! i)) = 12 \<and> length (nested_monthly (cl' ! i)) = 12"
      using mo i r(2) by (simp add: months_ok_def)
  qed
  have "nested_part (cl' ! k) j =
        nested_part (cl ! k) j +
          (if k = p then direct_part (cl ! c) j + nested_part (cl ! c) j else 0)"
    if "k < length cl" "j \<le> 12" for k j
  proof (cases "k = p")
    case False
    with r(3) show ?thesis by simp
  next
    case True
    show ?thesis
    proof (cases j)
      case 0
      with True r(4) show ?thesis by simp
    next
      case (Suc m)
      with that have "m < 12" by simp
      with r(6) True Suc show ?thesis by simp
    qed
  qed
  with f mo' show ?thesis by blast
qed

text \<open>Two lists that agree on everything but the nested figures.\<close>

definition same_frame :: "CatCode list \<Rightarrow> CatCode list \<Rightarrow> bool" where
  "same_frame cl cl' =
    (length cl' = length cl \<and>
     (\<forall>i. total (cl' ! i) = total (cl ! i) \<and> monthly (cl' ! i) = monthly (cl ! i) \<and>
          cat_level (cl' ! i) = cat_level (cl ! i) \<and> parent (cl' ! i) = parent (cl ! i)))"

lemma same_frame_refl: "same_frame cl cl"
  by (simp add: same_frame_def)

lemma same_frame_trans: "same_frame a b \<Longrightarrow> same_frame b c \<Longrightarrow> same_frame a c"
  by (simp add: same_frame_def)

lemma same_frame_direct_part: "same_frame cl cl' \<Longrightarrow> direct_part (cl' ! i) j = direct_part (cl ! i) j"
  by (rule direct_part_cong) (simp_all add: same_frame_def)

lemma same_frame_tree_ok: "same_frame cl cl' \<Longrightarrow> tree_ok cl \<Longrightarrow> tree_ok cl'"
  by (simp add: same_frame_def tree_ok_def)

lemma same_frame_descendant:
  assumes "same_frame cl cl'" and "strict_descendant cl k i"
  shows "strict_descendant cl' k i"
  using assms(2)
proof (induction rule: strict_descendant.induct)
  case (child i k)
  with assms(1) show ?case
    by (intro strict_descendant.child) (simp_all add: same_frame_def)
next
  case (deeper c i k)
  with assms(1) show ?case
    by (intro strict_descendant.deeper [of cl' c i k]) (simp_all add: same_frame_def)
qed

lemma same_frame_descendant_iff:
  assumes "same_frame cl cl'"
  shows "strict_descendant cl' k i \<longleftrightarrow> strict_descendant cl k i"
proof -
  from assms have "same_frame cl' cl" by (simp add: same_frame_def)
  with assms same_frame_descendant show ?thesis by blast
qed

lemma same_frame_descendant_sum:
  assumes "same_frame cl cl'"
  shows "descendant_sum cl' f k = descendant_sum cl f k"
proof -
  from assms have "length cl' = length cl" by (simp add: same_frame_def)
  then show ?thesis
    by (simp add: descendant_sum_def same_frame_descendant_iff [OF assms])
qed

lemma level_loop_result:
  assumes "tree_ok cl" and "months_ok cl" and "\<forall>c \<in> set is. c < length cl" and "2 \<le> lvl"
  shows "\<exists>cl'. level_loop lvl cl is = Inr cl' \<and> months_ok cl' \<and> same_frame cl cl' \<and>
     (\<forall>k < length cl. \<forall>j \<le> 12. nested_part (cl' ! k) j = nested_part (cl ! k) j +
        sum_list (map (\<lambda>c. if cat_level (cl ! c) = lvl \<and> parent (cl ! c) = Some k
                          then direct_part (cl ! c) j + nested_part (cl ! c) j else 0) is))"
  using assms
proof (induction "is" arbitrary: cl)
  case Nil
  then show ?case by (simp add: same_frame_refl)
next
  case (Cons c "is")
  from Cons.prems have c: "c < length cl" and rest: "\<forall>c \<in> set is. c < length cl" by auto
  show ?case
  proof (cases "cat_level (cl ! c) = lvl")
    case False
    from Cons.IH [OF Cons.prems(1,2) rest Cons.prems(4)] False show ?thesis by simp
  next
    case True
    with Cons.prems(1,4) c obtain p where p: "p < length cl" "parent (cl ! c) = Some p"
      "cat_level (cl ! p) + 1 = lvl"
      unfolding tree_ok_def by fastforce
    with True have pc: "p \<noteq> c" by auto
    from fold_child_result [OF c p(2) p(1) pc Cons.prems(2)]
    obtain cl1 where f: "fold_child cl c = Inr cl1" and mo1: "months_ok cl1"
      and n1: "\<forall>k < length cl. \<forall>j \<le> 12. nested_part (cl1 ! k) j =
        nested_part (cl ! k) j +
          (if k = p then direct_part (cl ! c) j + nested_part (cl ! c) j else 0)"
      by blast
    from fold_child_frame [OF f] have sf1: "same_frame cl cl1"
      by (simp add: same_frame_def)
    then have len1: "length cl1 = length cl" and lv1: "\<And>i. cat_level (cl1 ! i) = cat_level (cl ! i)"
      and pa1: "\<And>i. parent (cl1 ! i) = parent (cl ! i)"
      by (simp_all add: same_frame_def)
    have t1: "tree_ok cl1" using sf1 Cons.prems(1) by (rule same_frame_tree_ok)
    from rest len1 have rest1: "\<forall>c \<in> set is. c < length cl1" by simp
    from Cons.IH [OF t1 mo1 rest1 Cons.prems(4)]
    obtain cl' where l: "level_loop lvl cl1 is = Inr cl'" and mo': "months_ok cl'"
      and sf': "same_frame cl1 cl'"
      and n': "\<forall>k < length cl1. \<forall>j \<le> 12. nested_part (cl' ! k) j = nested_part (cl1 ! k) j +
        sum_list (map (\<lambda>c. if cat_level (cl1 ! c) = lvl \<and> parent (cl1 ! c) = Some k
                          then direct_part (cl1 ! c) j + nested_part (cl1 ! c) j else 0) is)"
      by blast
    have run: "level_loop lvl cl (c # is) = Inr cl'"
      using True f l by simp
    have "nested_part (cl' ! k) j = nested_part (cl ! k) j +
        sum_list (map (\<lambda>c. if cat_level (cl ! c) = lvl \<and> parent (cl ! c) = Some k
                          then direct_part (cl ! c) j + nested_part (cl ! c) j else 0) (c # is))"
      if k: "k < length cl" and j: "j \<le> 12" for k j
    proof -
      have same: "map (\<lambda>c. if cat_level (cl1 ! c) = lvl \<and> parent (cl1 ! c) = Some k
                          then direct_part (cl1 ! c) j + nested_part (cl1 ! c) j else 0) is =
          map (\<lambda>c. if cat_level (cl ! c) = lvl \<and> parent (cl ! c) = Some k
                          then direct_part (cl ! c) j + nested_part (cl ! c) j else 0) is"
      proof (rule map_cong [OF refl])
        fix c' assume "c' \<in> set is"
        with rest have c': "c' < length cl" by simp
        show "(if cat_level (cl1 ! c') = lvl \<and> parent (cl1 ! c') = Some k
                 then direct_part (cl1 ! c') j + nested_part (cl1 ! c') j else 0) =
              (if cat_level (cl ! c') = lvl \<and> parent (cl ! c') = Some k
                 then direct_part (cl ! c') j + nested_part (cl ! c') j else 0)"
        proof (cases "cat_level (cl ! c') = lvl")
          case False
          then show ?thesis by (simp add: lv1)
        next
          case True
          with p(3) have "c' \<noteq> p" by auto
          with n1 c' j have "nested_part (cl1 ! c') j = nested_part (cl ! c') j" by simp
          then show ?thesis
            by (simp add: lv1 pa1 same_frame_direct_part [OF sf1])
        qed
      qed
      have head: "(if cat_level (cl ! c) = lvl \<and> parent (cl ! c) = Some k
            then direct_part (cl ! c) j + nested_part (cl ! c) j else 0) =
          (if k = p then direct_part (cl ! c) j + nested_part (cl ! c) j else 0)"
        using True p(2) by auto
      from n' k j len1 have "nested_part (cl' ! k) j = nested_part (cl1 ! k) j +
        sum_list (map (\<lambda>c. if cat_level (cl1 ! c) = lvl \<and> parent (cl1 ! c) = Some k
                          then direct_part (cl1 ! c) j + nested_part (cl1 ! c) j else 0) is)"
        by simp
      also from n1 k j have "nested_part (cl1 ! k) j = nested_part (cl ! k) j +
          (if k = p then direct_part (cl ! c) j + nested_part (cl ! c) j else 0)"
        by simp
      finally show ?thesis
        by (simp only: same head list.map sum_list.Cons add.assoc)
    qed
    with run mo' same_frame_trans [OF sf1 sf'] show ?thesis by blast
  qed
qed

section \<open>The three passes\<close>

lemma sum_list_upt_lessThan: "sum_list (map f [0..<n]) = (\<Sum>c < n. (f c :: real))"
  by (simp add: interv_sum_list_conv_sum_set_nat atLeast0LessThan)

text \<open>
  After the pass for a level, the nested figures of the nodes one level higher and
  deeper are the sums over their strict descendants; the nodes higher up are still zero.
\<close>

lemma level_pass:
  assumes t0: "tree_ok cl0" and sf: "same_frame cl0 cl" and mo: "months_ok cl"
    and lvl: "2 \<le> lvl" "lvl \<le> 4"
    and pre: "\<forall>k < length cl0. \<forall>j \<le> 12. nested_part (cl ! k) j =
      (if lvl \<le> cat_level (cl0 ! k) then descendant_sum cl0 (\<lambda>i. direct_part (cl0 ! i) j) k
       else 0)"
  shows "\<exists>cl'. level_loop lvl cl [0..<length cl] = Inr cl' \<and> months_ok cl' \<and>
     same_frame cl0 cl' \<and>
     (\<forall>k < length cl0. \<forall>j \<le> 12. nested_part (cl' ! k) j =
       (if lvl - 1 \<le> cat_level (cl0 ! k)
        then descendant_sum cl0 (\<lambda>i. direct_part (cl0 ! i) j) k else 0))"
proof -
  from sf have len: "length cl = length cl0" and lv: "\<And>i. cat_level (cl ! i) = cat_level (cl0 ! i)"
    and pa: "\<And>i. parent (cl ! i) = parent (cl0 ! i)"
    by (simp_all add: same_frame_def)
  have t: "tree_ok cl" using sf t0 by (rule same_frame_tree_ok)
  have "\<forall>c \<in> set [0..<length cl]. c < length cl" by simp
  from level_loop_result [OF t mo this lvl(1)]
  obtain cl' where run: "level_loop lvl cl [0..<length cl] = Inr cl'" and mo': "months_ok cl'"
    and sf': "same_frame cl cl'"
    and n': "\<forall>k < length cl. \<forall>j \<le> 12. nested_part (cl' ! k) j = nested_part (cl ! k) j +
        (\<Sum>c < length cl. if cat_level (cl ! c) = lvl \<and> parent (cl ! c) = Some k
                          then direct_part (cl ! c) j + nested_part (cl ! c) j else 0)"
    unfolding sum_list_upt_lessThan by blast
  have "nested_part (cl' ! k) j =
       (if lvl - 1 \<le> cat_level (cl0 ! k)
        then descendant_sum cl0 (\<lambda>i. direct_part (cl0 ! i) j) k else 0)"
    if k: "k < length cl0" and j: "j \<le> 12" for k j
  proof -
    let ?D = "descendant_sum cl0 (\<lambda>i. direct_part (cl0 ! i) j)"
    have terms: "(\<Sum>c < length cl0. if cat_level (cl ! c) = lvl \<and> parent (cl ! c) = Some k
                          then direct_part (cl ! c) j + nested_part (cl ! c) j else 0) =
        (\<Sum>c < length cl0. if cat_level (cl0 ! c) = lvl \<and> parent (cl0 ! c) = Some k
                          then direct_part (cl0 ! c) j + ?D c else 0)"
    proof (rule sum.cong [OF refl])
      fix c assume "c \<in> {..<length cl0}"
      then have c: "c < length cl0" by simp
      show "(if cat_level (cl ! c) = lvl \<and> parent (cl ! c) = Some k
              then direct_part (cl ! c) j + nested_part (cl ! c) j else 0) =
            (if cat_level (cl0 ! c) = lvl \<and> parent (cl0 ! c) = Some k
              then direct_part (cl0 ! c) j + ?D c else 0)"
        using pre c j by (simp add: lv pa same_frame_direct_part [OF sf])
    qed
    from n' k j have "nested_part (cl' ! k) j = nested_part (cl ! k) j +
        (\<Sum>c < length cl0. if cat_level (cl ! c) = lvl \<and> parent (cl ! c) = Some k
                          then direct_part (cl ! c) j + nested_part (cl ! c) j else 0)"
      by (simp add: len)
    then have eq: "nested_part (cl' ! k) j = nested_part (cl ! k) j +
        (\<Sum>c < length cl0. if cat_level (cl0 ! c) = lvl \<and> parent (cl0 ! c) = Some k
                          then direct_part (cl0 ! c) j + ?D c else 0)"
      by (simp only: terms)
    show ?thesis
    proof (cases "cat_level (cl0 ! k) + 1 = lvl")
      case True
      have "(\<Sum>c < length cl0. if cat_level (cl0 ! c) = lvl \<and> parent (cl0 ! c) = Some k
                          then direct_part (cl0 ! c) j + ?D c else 0) =
          (\<Sum>c < length cl0. if parent (cl0 ! c) = Some k
                          then direct_part (cl0 ! c) j + ?D c else 0)"
      proof (rule sum.cong [OF refl])
        fix c assume "c \<in> {..<length cl0}"
        then have c: "c < length cl0" by simp
        show "(if cat_level (cl0 ! c) = lvl \<and> parent (cl0 ! c) = Some k
                then direct_part (cl0 ! c) j + ?D c else 0) =
              (if parent (cl0 ! c) = Some k then direct_part (cl0 ! c) j + ?D c else 0)"
          using tree_ok_parent [OF t0 c, of k] True by auto
      qed
      also have "\<dots> = ?D k"
        by (rule descendant_sum_children [OF t0])
      finally have "nested_part (cl' ! k) j = nested_part (cl ! k) j + ?D k"
        using eq by simp
      moreover from True have "lvl - 1 \<le> cat_level (cl0 ! k)" "\<not> lvl \<le> cat_level (cl0 ! k)"
        by simp_all
      ultimately show ?thesis
        using pre k j by simp
    next
      case False
      have "(\<Sum>c < length cl0. if cat_level (cl0 ! c) = lvl \<and> parent (cl0 ! c) = Some k
                          then direct_part (cl0 ! c) j + ?D c else 0) = 0"
      proof (rule sum.neutral, rule ballI)
        fix c assume "c \<in> {..<length cl0}"
        then have c: "c < length cl0" by simp
        show "(if cat_level (cl0 ! c) = lvl \<and> parent (cl0 ! c) = Some k
                then direct_part (cl0 ! c) j + ?D c else 0) = 0"
          using tree_ok_parent [OF t0 c, of k] False by auto
      qed
      with eq pre k j False lvl show ?thesis by auto
    qed
  qed
  with run mo' same_frame_trans [OF sf sf'] show ?thesis by blast
qed

lemma levels_loop_result:
  assumes t: "tree_ok cl" and mo: "months_ok cl"
    and zero: "\<forall>k < length cl. \<forall>j \<le> 12. nested_part (cl ! k) j = 0"
  shows "\<exists>cl'. levels_loop cl [4, 3, 2] = Inr cl' \<and> months_ok cl' \<and> same_frame cl cl' \<and>
     (\<forall>k < length cl. \<forall>j \<le> 12. nested_part (cl' ! k) j =
        descendant_sum cl (\<lambda>i. direct_part (cl ! i) j) k)"
proof -
  have pre4: "\<forall>k < length cl. \<forall>j \<le> 12. nested_part (cl ! k) j =
      (if 4 \<le> cat_level (cl ! k) then descendant_sum cl (\<lambda>i. direct_part (cl ! i) j) k else 0)"
    using zero tree_ok_level [OF t] descendant_sum_deepest [OF t]
    by (auto simp: le_antisym)
  from level_pass [OF t same_frame_refl mo _ _ pre4]
  obtain cl4 where r4: "level_loop 4 cl [0..<length cl] = Inr cl4" and mo4: "months_ok cl4"
    and sf4: "same_frame cl cl4"
    and n4: "\<forall>k < length cl. \<forall>j \<le> 12. nested_part (cl4 ! k) j =
       (if 3 \<le> cat_level (cl ! k) then descendant_sum cl (\<lambda>i. direct_part (cl ! i) j) k else 0)"
    by auto
  from level_pass [OF t sf4 mo4 _ _ n4]
  obtain cl3 where r3: "level_loop 3 cl4 [0..<length cl4] = Inr cl3" and mo3: "months_ok cl3"
    and sf3: "same_frame cl cl3"
    and n3: "\<forall>k < length cl. \<forall>j \<le> 12. nested_part (cl3 ! k) j =
       (if 2 \<le> cat_level (cl ! k) then descendant_sum cl (\<lambda>i. direct_part (cl ! i) j) k else 0)"
    by auto
  from level_pass [OF t sf3 mo3 _ _ n3]
  obtain cl2 where r2: "level_loop 2 cl3 [0..<length cl3] = Inr cl2" and mo2: "months_ok cl2"
    and sf2: "same_frame cl cl2"
    and n2: "\<forall>k < length cl. \<forall>j \<le> 12. nested_part (cl2 ! k) j =
       (if 1 \<le> cat_level (cl ! k) then descendant_sum cl (\<lambda>i. direct_part (cl ! i) j) k else 0)"
    by auto
  have "levels_loop cl [4, 3, 2] = Inr cl2"
    using r4 r3 r2 by simp
  moreover have "\<forall>k < length cl. \<forall>j \<le> 12. nested_part (cl2 ! k) j =
        descendant_sum cl (\<lambda>i. direct_part (cl ! i) j) k"
    using n2 tree_ok_level [OF t] by simp
  ultimately show ?thesis using mo2 sf2 by blast
qed

text \<open>The same for a level 4 node alone: no pass adds to it.\<close>

lemma levels_loop_deepest:
  assumes t: "tree_ok cl" and mo: "months_ok cl"
    and zero: "\<forall>k < length cl. \<forall>j \<le> 12. nested_part (cl ! k) j = 0"
    and run: "levels_loop cl [4, 3, 2] = Inr cl'"
    and k: "k < length cl" "cat_level (cl ! k) = 4" and j: "j \<le> 12"
  shows "nested_part (cl' ! k) j = 0"
proof -
  from levels_loop_result [OF t mo zero] run
  have "nested_part (cl' ! k) j = descendant_sum cl (\<lambda>i. direct_part (cl ! i) j) k"
    using k(1) j by auto
  with descendant_sum_deepest [OF t k] show ?thesis by simp
qed

section \<open>What the passes before the fold establish\<close>

text \<open>
  After the category file is read: the dictionary leads to the node of each code, every
  code is well formed, the level of a node is the number of segments of its code, and
  no node has a parent or a figure other than zero yet.
\<close>

definition registry_ok :: "globals \<Rightarrow> bool" where
  "registry_ok g =
    ((\<forall>code idx. cat_dict g code = Some idx \<longrightarrow>
        idx < length (cat_list g) \<and> cat_str (cat_list g ! idx) = code) \<and>
     (\<forall>i < length (cat_list g).
        valid_cat_code (cat_str (cat_list g ! i)) \<and>
        cat_level (cat_list g ! i) = length (segments (cat_str (cat_list g ! i))) \<and>
        parent (cat_list g ! i) = None \<and>
        total (cat_list g ! i) = 0 \<and> nested_total (cat_list g ! i) = 0 \<and>
        monthly (cat_list g ! i) = replicate 12 0 \<and>
        nested_monthly (cat_list g ! i) = replicate 12 0))"

lemma registry_ok_dict:
  "registry_ok g \<Longrightarrow> cat_dict g code = Some idx \<Longrightarrow>
     idx < length (cat_list g) \<and> cat_str (cat_list g ! idx) = code"
  by (simp add: registry_ok_def)

lemma registry_ok_node:
  "registry_ok g \<Longrightarrow> i < length (cat_list g) \<Longrightarrow>
     valid_cat_code (cat_str (cat_list g ! i)) \<and>
     cat_level (cat_list g ! i) = length (segments (cat_str (cat_list g ! i))) \<and>
     parent (cat_list g ! i) = None \<and>
     total (cat_list g ! i) = 0 \<and> nested_total (cat_list g ! i) = 0 \<and>
     monthly (cat_list g ! i) = replicate 12 0 \<and>
     nested_monthly (cat_list g ! i) = replicate 12 0"
  by (simp add: registry_ok_def)

lemma registry_ok_append:
  assumes r: "registry_ok g" and code: "cat_dict g code = None"
    and e: "parse_cat_file_line line = Cat_Entry code d cm lvl"
  shows "registry_ok (g\<lparr>cat_dict := (cat_dict g)(code \<mapsto> length (cat_list g)),
           cat_list := cat_list g @ [CatCode_init code d cm lvl lnum]\<rparr>)"
proof -
  from parse_cat_entry_sound [OF e] have v: "valid_cat_code code" "lvl = length (segments code)"
    by blast+
  show ?thesis
    unfolding registry_ok_def
  proof (intro conjI allI impI)
    fix c idx
    assume "cat_dict (g\<lparr>cat_dict := (cat_dict g)(code \<mapsto> length (cat_list g)),
           cat_list := cat_list g @ [CatCode_init code d cm lvl lnum]\<rparr>) c = Some idx"
    then consider "c = code" "idx = length (cat_list g)" | "c \<noteq> code" "cat_dict g c = Some idx"
      by (auto split: if_splits)
    then have "idx < Suc (length (cat_list g)) \<and>
        cat_str ((cat_list g @ [CatCode_init code d cm lvl lnum]) ! idx) = c"
    proof cases
      case 1
      then show ?thesis by (simp add: CatCode_init_def)
    next
      case 2
      from registry_ok_dict [OF r 2(2)] show ?thesis by (simp add: nth_append)
    qed
    then show "idx < length (cat_list (g\<lparr>cat_dict := (cat_dict g)(code \<mapsto> length (cat_list g)),
           cat_list := cat_list g @ [CatCode_init code d cm lvl lnum]\<rparr>))"
      and "cat_str (cat_list (g\<lparr>cat_dict := (cat_dict g)(code \<mapsto> length (cat_list g)),
           cat_list := cat_list g @ [CatCode_init code d cm lvl lnum]\<rparr>) ! idx) = c"
      by simp_all
  next
    fix i
    assume "i < length (cat_list (g\<lparr>cat_dict := (cat_dict g)(code \<mapsto> length (cat_list g)),
           cat_list := cat_list g @ [CatCode_init code d cm lvl lnum]\<rparr>))"
    then have i: "i < length (cat_list g) \<or> i = length (cat_list g)" by auto
    let ?c = "cat_list (g\<lparr>cat_dict := (cat_dict g)(code \<mapsto> length (cat_list g)),
           cat_list := cat_list g @ [CatCode_init code d cm lvl lnum]\<rparr>) ! i"
    from i have "valid_cat_code (cat_str ?c) \<and>
        cat_level ?c = length (segments (cat_str ?c)) \<and>
        parent ?c = None \<and> total ?c = 0 \<and> nested_total ?c = 0 \<and>
        monthly ?c = replicate 12 0 \<and> nested_monthly ?c = replicate 12 0"
    proof
      assume "i < length (cat_list g)"
      with registry_ok_node [OF r this] show ?thesis by (simp add: nth_append)
    next
      assume "i = length (cat_list g)"
      with v show ?thesis by (simp add: CatCode_init_def)
    qed
    then show "valid_cat_code (cat_str ?c)"
      and "cat_level ?c = length (segments (cat_str ?c))"
      and "parent ?c = None" and "total ?c = 0" and "nested_total ?c = 0"
      and "monthly ?c = replicate 12 0" and "nested_monthly ?c = replicate 12 0"
      by simp_all
  qed
qed

lemma cat_file_loop_registry:
  "registry_ok g \<Longrightarrow> idx = length (cat_list g) \<Longrightarrow> cat_file_loop g idx lnum lines = Inr g' \<Longrightarrow>
     registry_ok g'"
proof (induction lines arbitrary: g idx lnum)
  case Nil
  then show ?case by simp
next
  case (Cons line lines)
  show ?case
  proof (cases "parse_cat_file_line line")
    case (Cat_Error e)
    with Cons.prems show ?thesis by simp
  next
    case Cat_Blank
    with Cons show ?thesis by simp
  next
    case (Cat_Entry code d cm lvl)
    show ?thesis
    proof (cases "code = []")
      case True
      with Cat_Entry Cons show ?thesis by simp
    next
      case False
      let ?g1 = "g\<lparr>cat_dict := (cat_dict g)(code \<mapsto> length (cat_list g)),
           cat_list := cat_list g @ [CatCode_init code d cm lvl lnum]\<rparr>"
      from False Cat_Entry Cons.prems have nd: "cat_dict g code = None"
        and run: "cat_file_loop ?g1 (Suc idx) (Suc lnum) lines = Inr g'"
        by (auto simp: domIff split: if_splits)
      have "registry_ok ?g1"
        using Cons.prems(1) nd Cat_Entry by (rule registry_ok_append)
      moreover have "Suc idx = length (cat_list ?g1)"
        using Cons.prems(2) by simp
      ultimately show ?thesis using run by (rule Cons.IH)
    qed
  qed
qed

lemma read_and_parse_cat_file_registry:
  assumes "read_and_parse_cat_file globals0 lines = Inr g"
  shows "registry_ok g"
proof -
  from assms have "cat_file_loop globals0 0 1 lines = Inr g"
    by (auto simp: read_and_parse_cat_file_def split: sum.splits if_splits)
  moreover have "registry_ok globals0" "0 = length (cat_list globals0)"
    by (simp_all add: registry_ok_def globals0_def)
  ultimately show ?thesis by (intro cat_file_loop_registry [of globals0 0 1 lines g]) 
qed

text \<open>The code of the parent: the code without its last period and what follows.\<close>

definition parent_code_of :: "string \<Rightarrow> string" where
  "parent_code_of full_code = slice_to full_code (rfind (CHR ''.'') full_code)"

lemma rfind_absent: "c \<notin> set s \<Longrightarrow> rfind c s = - 1"
  by (induction s) auto

lemma rfind_last: "c \<notin> set b \<Longrightarrow> rfind c (a @ c # b) = int (length a)"
  by (induction a) (simp_all add: rfind_absent)

lemma parent_code_segments:
  assumes "1 < length (segments code)"
  shows "length (segments (parent_code_of code)) + 1 = length (segments code)"
proof -
  have "CHR ''.'' \<in> set code"
  proof (rule ccontr)
    assume "CHR ''.'' \<notin> set code"
    then have "segments code = [code]" by (simp add: segments_def split_on_no_sep)
    with assms show False by simp
  qed
  then obtain a b where ab: "code = a @ CHR ''.'' # b" "CHR ''.'' \<notin> set b"
    using split_list_last [of "CHR ''.''" code] by blast
  then have "parent_code_of code = a"
    by (simp add: parent_code_of_def rfind_last slice_to_def)
  moreover have "segments code = segments a @ [b]"
    using ab by (simp add: segments_def split_on_append_sep split_on_no_sep)
  ultimately show ?thesis by simp
qed

lemma hierarchy_step_result:
  assumes "hierarchy_step g idx = Inr g'"
  shows "cat_dict g' = cat_dict g \<and> length (cat_list g') = length (cat_list g) \<and>
    (\<forall>i. cat_str (cat_list g' ! i) = cat_str (cat_list g ! i) \<and>
         cat_level (cat_list g' ! i) = cat_level (cat_list g ! i) \<and>
         total (cat_list g' ! i) = total (cat_list g ! i) \<and>
         nested_total (cat_list g' ! i) = nested_total (cat_list g ! i) \<and>
         monthly (cat_list g' ! i) = monthly (cat_list g ! i) \<and>
         nested_monthly (cat_list g' ! i) = nested_monthly (cat_list g ! i) \<and>
         (i \<noteq> idx \<longrightarrow> parent (cat_list g' ! i) = parent (cat_list g ! i))) \<and>
    (if 1 < cat_level (cat_list g ! idx)
     then cat_dict g (parent_code_of (cat_str (cat_list g ! idx))) \<noteq> None \<and>
          (idx < length (cat_list g) \<longrightarrow>
             parent (cat_list g' ! idx) =
               cat_dict g (parent_code_of (cat_str (cat_list g ! idx))))
     else g' = g)"
  using assms
  by (auto simp: hierarchy_step_def Let_def parent_code_of_def nth_list_update_any
      split: if_splits option.splits)

lemma hierarchy_loop_result:
  assumes "hierarchy_loop g is = Inr g'" and "distinct is"
    and "\<forall>i \<in> set is. i < length (cat_list g)"
  shows "cat_dict g' = cat_dict g \<and> length (cat_list g') = length (cat_list g) \<and>
    (\<forall>i. cat_str (cat_list g' ! i) = cat_str (cat_list g ! i) \<and>
         cat_level (cat_list g' ! i) = cat_level (cat_list g ! i) \<and>
         total (cat_list g' ! i) = total (cat_list g ! i) \<and>
         nested_total (cat_list g' ! i) = nested_total (cat_list g ! i) \<and>
         monthly (cat_list g' ! i) = monthly (cat_list g ! i) \<and>
         nested_monthly (cat_list g' ! i) = nested_monthly (cat_list g ! i) \<and>
         (i \<notin> set is \<or> \<not> 1 < cat_level (cat_list g ! i) \<longrightarrow>
            parent (cat_list g' ! i) = parent (cat_list g ! i))) \<and>
    (\<forall>i \<in> set is. 1 < cat_level (cat_list g ! i) \<longrightarrow>
        cat_dict g (parent_code_of (cat_str (cat_list g ! i))) \<noteq> None \<and>
        parent (cat_list g' ! i) = cat_dict g (parent_code_of (cat_str (cat_list g ! i))))"
  using assms
proof (induction "is" arbitrary: g)
  case Nil
  then show ?case by simp
next
  case (Cons idx "is")
  from Cons.prems(1) obtain g1 where 1: "hierarchy_step g idx = Inr g1"
    and 2: "hierarchy_loop g1 is = Inr g'"
    by (auto split: sum.splits)
  note s = hierarchy_step_result [OF 1]
  from Cons.prems have d: "distinct is" "idx \<notin> set is" "idx < length (cat_list g)"
    and r: "\<forall>i \<in> set is. i < length (cat_list g1)"
    using s by auto
  note l = Cons.IH [OF 2 d(1) r]
  show ?case
  proof (intro conjI allI ballI impI)
    show "cat_dict g' = cat_dict g" using s l by simp
    show "length (cat_list g') = length (cat_list g)" using s l by simp
  next
    fix i
    show "cat_str (cat_list g' ! i) = cat_str (cat_list g ! i)"
      and "cat_level (cat_list g' ! i) = cat_level (cat_list g ! i)"
      and "total (cat_list g' ! i) = total (cat_list g ! i)"
      and "nested_total (cat_list g' ! i) = nested_total (cat_list g ! i)"
      and "monthly (cat_list g' ! i) = monthly (cat_list g ! i)"
      and "nested_monthly (cat_list g' ! i) = nested_monthly (cat_list g ! i)"
      using s l by simp_all
  next
    fix i
    assume a: "i \<notin> set (idx # is) \<or> \<not> 1 < cat_level (cat_list g ! i)"
    from s l have lv: "cat_level (cat_list g1 ! i) = cat_level (cat_list g ! i)" by simp
    from a lv l have "parent (cat_list g' ! i) = parent (cat_list g1 ! i)" by auto
    moreover from a s have "parent (cat_list g1 ! i) = parent (cat_list g ! i)"
      by (cases "i = idx") (auto split: if_splits)
    ultimately show "parent (cat_list g' ! i) = parent (cat_list g ! i)" by simp
  next
    fix i
    assume i: "i \<in> set (idx # is)" and lvl: "1 < cat_level (cat_list g ! i)"
    show "cat_dict g (parent_code_of (cat_str (cat_list g ! i))) \<noteq> None"
      and "parent (cat_list g' ! i) = cat_dict g (parent_code_of (cat_str (cat_list g ! i)))"
    proof -
      have "cat_dict g (parent_code_of (cat_str (cat_list g ! i))) \<noteq> None \<and>
          parent (cat_list g' ! i) = cat_dict g (parent_code_of (cat_str (cat_list g ! i)))"
      proof (cases "i = idx")
        case True
        with s lvl d(3) have "cat_dict g (parent_code_of (cat_str (cat_list g ! i))) \<noteq> None"
          and "parent (cat_list g1 ! i) = cat_dict g (parent_code_of (cat_str (cat_list g ! i)))"
          by (auto split: if_splits)
        moreover from True d(2) l have "parent (cat_list g' ! i) = parent (cat_list g1 ! i)"
          by auto
        ultimately show ?thesis by simp
      next
        case False
        with i have "i \<in> set is" by simp
        moreover from s lvl have "1 < cat_level (cat_list g1 ! i)" by simp
        ultimately have "cat_dict g1 (parent_code_of (cat_str (cat_list g1 ! i))) \<noteq> None \<and>
            parent (cat_list g' ! i) = cat_dict g1 (parent_code_of (cat_str (cat_list g1 ! i)))"
          using l by blast
        with s show ?thesis by simp
      qed
      then show "cat_dict g (parent_code_of (cat_str (cat_list g ! i))) \<noteq> None"
        and "parent (cat_list g' ! i) = cat_dict g (parent_code_of (cat_str (cat_list g ! i)))"
        by simp_all
    qed
  qed
qed

text \<open>
  What the fold starts from: the tree is well formed, and every figure that the fold
  reads or writes has its twelve months.
\<close>

lemma hierarchy_establishes:
  assumes r: "registry_ok g" and h: "prc_cat_file_hierarchy g = Inr g'"
  shows "tree_ok (cat_list g') \<and> cat_dict g' = cat_dict g \<and>
    length (cat_list g') = length (cat_list g) \<and>
    (\<forall>i < length (cat_list g').
       total (cat_list g' ! i) = 0 \<and> nested_total (cat_list g' ! i) = 0 \<and>
       monthly (cat_list g' ! i) = replicate 12 0 \<and>
       nested_monthly (cat_list g' ! i) = replicate 12 0)"
proof -
  let ?cl = "cat_list g" and ?cl' = "cat_list g'"
  from h have "hierarchy_loop g [0..<length ?cl] = Inr g'"
    by (simp add: prc_cat_file_hierarchy_def)
  from hierarchy_loop_result [OF this] have
    len: "length ?cl' = length ?cl" and dict: "cat_dict g' = cat_dict g"
    and same: "\<And>i. cat_str (?cl' ! i) = cat_str (?cl ! i) \<and>
         cat_level (?cl' ! i) = cat_level (?cl ! i) \<and>
         total (?cl' ! i) = total (?cl ! i) \<and>
         nested_total (?cl' ! i) = nested_total (?cl ! i) \<and>
         monthly (?cl' ! i) = monthly (?cl ! i) \<and>
         nested_monthly (?cl' ! i) = nested_monthly (?cl ! i)"
    and keep: "\<And>i. \<not> 1 < cat_level (?cl ! i) \<Longrightarrow> parent (?cl' ! i) = parent (?cl ! i)"
    and found: "\<And>i. i < length ?cl \<Longrightarrow> 1 < cat_level (?cl ! i) \<Longrightarrow>
        cat_dict g (parent_code_of (cat_str (?cl ! i))) \<noteq> None \<and>
        parent (?cl' ! i) = cat_dict g (parent_code_of (cat_str (?cl ! i)))"
    by simp_all
  have "tree_ok ?cl'"
    unfolding tree_ok_def
  proof (intro allI impI)
    fix i assume "i < length ?cl'"
    with len have i: "i < length ?cl" by simp
    note n = registry_ok_node [OF r i]
    from n have lv: "1 \<le> cat_level (?cl ! i)" "cat_level (?cl ! i) \<le> 4"
      by (simp_all add: valid_cat_code_def)
    show "cat_level (?cl' ! i) = 1 \<and> parent (?cl' ! i) = None \<or>
       2 \<le> cat_level (?cl' ! i) \<and> cat_level (?cl' ! i) \<le> 4 \<and>
       (\<exists>p < length ?cl'. parent (?cl' ! i) = Some p \<and>
          cat_level (?cl' ! p) + 1 = cat_level (?cl' ! i))"
    proof (cases "1 < cat_level (?cl ! i)")
      case False
      with lv keep [OF False] n same [of i] show ?thesis by simp
    next
      case True
      from found [OF i True] obtain p where
        p: "cat_dict g (parent_code_of (cat_str (?cl ! i))) = Some p" "parent (?cl' ! i) = Some p"
        by auto
      from registry_ok_dict [OF r p(1)] have pl: "p < length ?cl"
        and ps: "cat_str (?cl ! p) = parent_code_of (cat_str (?cl ! i))"
        by simp_all
      from registry_ok_node [OF r pl] ps
      have "cat_level (?cl ! p) = length (segments (parent_code_of (cat_str (?cl ! i))))"
        by simp
      moreover from True n have "1 < length (segments (cat_str (?cl ! i)))" by simp
      ultimately have "cat_level (?cl ! p) + 1 = cat_level (?cl ! i)"
        using parent_code_segments [of "cat_str (?cl ! i)"] n by simp
      with True lv p(2) pl len same [of i] same [of p] show ?thesis by auto
    qed
  qed
  moreover have "\<forall>i < length ?cl'.
       total (?cl' ! i) = 0 \<and> nested_total (?cl' ! i) = 0 \<and>
       monthly (?cl' ! i) = replicate 12 0 \<and> nested_monthly (?cl' ! i) = replicate 12 0"
    using registry_ok_node [OF r] len same by simp
  ultimately show ?thesis using len dict by simp
qed

end
